theory Spec2Isabelle
  imports Main "HOL-Library.Word"
begin

section \<open>JavaScript strings\<close>

text \<open>
  A JavaScript string is a sequence of UTF-16 code units; \<open>.length\<close>, \<open>.slice\<close> and
  \<open>.lastIndexOf\<close> count code units. The sentence terminators of the translator include
  characters outside ASCII, so texts are modelled as lists of 16-bit words.
\<close>

type_synonym jschar = "16 word"
type_synonym jsstring = "jschar list"

definition js :: "string \<Rightarrow> jsstring" where
  \<comment> \<open>An ASCII literal as a JavaScript string.\<close>
  "js s = map of_char s"

definition SPACE :: jschar where
  "SPACE = 0x20"

definition isWhiteSpace :: "jschar \<Rightarrow> bool" where
  \<comment> \<open>The set matched by \<open>\s\<close> and removed by \<open>String.prototype.trim\<close>: the WhiteSpace
      and LineTerminator productions of ECMAScript.\<close>
  "isWhiteSpace c \<longleftrightarrow>
     c = 0x09 \<or> c = 0x0A \<or> c = 0x0B \<or> c = 0x0C \<or> c = 0x0D \<or> c = 0x20 \<or> c = 0xA0 \<or>
     c = 0x1680 \<or> (0x2000 \<le> c \<and> c \<le> 0x200A) \<or> c = 0x2028 \<or> c = 0x2029 \<or>
     c = 0x202F \<or> c = 0x205F \<or> c = 0x3000 \<or> c = 0xFEFF"

definition trim :: "jsstring \<Rightarrow> jsstring" where
  \<comment> \<open>\<open>s.trim()\<close>\<close>
  "trim s = rev (dropWhile isWhiteSpace (rev (dropWhile isWhiteSpace s)))"

function collapse_ws :: "jsstring \<Rightarrow> jsstring" where
  \<comment> \<open>\<open>s.replace(/\s+/g, ' ')\<close>: every maximal run of white space becomes one space.\<close>
  "collapse_ws [] = []"
| "collapse_ws (c # cs) =
     (if isWhiteSpace c then SPACE # collapse_ws (dropWhile isWhiteSpace cs)
      else c # collapse_ws cs)"
  by pat_completeness auto
termination
  by (relation "measure length") (auto simp: less_Suc_eq_le length_dropWhile_le)

definition isHighSurrogate :: "jschar \<Rightarrow> bool" where
  "isHighSurrogate c \<longleftrightarrow> 0xD800 \<le> c \<and> c \<le> 0xDBFF"

definition isLowSurrogate :: "jschar \<Rightarrow> bool" where
  "isLowSurrogate c \<longleftrightarrow> 0xDC00 \<le> c \<and> c \<le> 0xDFFF"

fun code_points :: "jsstring \<Rightarrow> jsstring list" where
  \<comment> \<open>The string iterator used by \<open>for (const ch of s)\<close>: one element per code point,
      a well-formed surrogate pair being one element of two code units.\<close>
  "code_points [] = []"
| "code_points [c] = [[c]]"
| "code_points (c # d # cs) =
     (if isHighSurrogate c \<and> isLowSurrogate d then [c, d] # code_points cs
      else [c] # code_points (d # cs))"

definition strip_ws :: "jsstring \<Rightarrow> jsstring" where
  \<comment> \<open>The text with all white space removed (used to state preservation of content).\<close>
  "strip_ws s = filter (\<lambda>c. \<not> isWhiteSpace c) s"

section \<open>Sentence extraction (translator component)\<close>

definition isSentenceTerminator :: "jsstring \<Rightarrow> bool" where
  \<comment> \<open>\<open>ch === '.' || ch === '!' || ch === '?' || ch === '\<dots>'\<close> with the three full-width
      terminators U+3002, U+FF01, U+FF1F.\<close>
  "isSentenceTerminator ch \<longleftrightarrow>
     ch = [0x2E] \<or> ch = [0x21] \<or> ch = [0x3F] \<or> ch = [0x3002] \<or> ch = [0xFF01] \<or> ch = [0xFF1F]"

record extracted =
  completed :: "jsstring list"
  remainder :: jsstring

fun extract_loop :: "jsstring list \<Rightarrow> jsstring list \<Rightarrow> jsstring \<Rightarrow> jsstring list \<times> jsstring" where
  \<comment> \<open>The \<open>for\<close> loop of \<open>extractCompletedSentences\<close> over the remaining characters, with
      the array \<open>completed\<close> and the string \<open>current\<close> as loop state.\<close>
  "extract_loop [] done current = (done, current)"
| "extract_loop (ch # chs) done current =
     (let current = current @ ch in
      if isSentenceTerminator ch then
        (let s = trim current in
         extract_loop chs (if s \<noteq> [] then done @ [s] else done) [])
      else extract_loop chs done current)"

definition extractCompletedSentences :: "jsstring \<Rightarrow> extracted" where
  "extractCompletedSentences text =
     (let cleaned = trim (collapse_ws text) in
      if cleaned = [] then \<lparr>completed = [], remainder = []\<rparr>
      else (case extract_loop (code_points cleaned) [] [] of
              (done, current) \<Rightarrow> \<lparr>completed = done, remainder = trim current\<rparr>))"


definition isTerminatorUnit :: "jschar \<Rightarrow> bool" where
  \<comment> \<open>The code units of the six sentence terminators.\<close>
  "isTerminatorUnit c \<longleftrightarrow>
     c = 0x2E \<or> c = 0x21 \<or> c = 0x3F \<or> c = 0x3002 \<or> c = 0xFF01 \<or> c = 0xFF1F"

definition sentence_ok :: "jsstring \<Rightarrow> bool" where
  \<comment> \<open>A completed sentence: not empty, ending in a terminator.\<close>
  "sentence_ok c \<longleftrightarrow> c \<noteq> [] \<and> isTerminatorUnit (last c)"

definition plain_char :: "jsstring \<Rightarrow> bool" where
  \<comment> \<open>An element of the string iterator is a terminator or contains none.\<close>
  "plain_char ch \<longleftrightarrow> isSentenceTerminator ch \<or> (\<forall>u\<in>set ch. \<not> isTerminatorUnit u)"

definition joinWithSpace :: "jsstring \<Rightarrow> jsstring \<Rightarrow> jsstring" where
  "joinWithSpace a b =
     (let left = trim a; right = trim b in
      if left = [] then right
      else if right = [] then left
      else left @ [SPACE] @ right)"

section \<open>Chunking to the query limit\<close>

fun last_index_below :: "jsstring \<Rightarrow> jschar \<Rightarrow> nat \<Rightarrow> int" where
  \<comment> \<open>Backward search for a code unit among the positions below \<open>k\<close>; \<open>-1\<close> when absent.\<close>
  "last_index_below s c 0 = - 1"
| "last_index_below s c (Suc k) = (if s ! k = c then int k else last_index_below s c k)"

definition lastIndexOf :: "jsstring \<Rightarrow> jschar \<Rightarrow> int" where
  \<comment> \<open>\<open>s.lastIndexOf(c)\<close> for a one-unit search string.\<close>
  "lastIndexOf s c = last_index_below s c (length s)"

definition beyond_sixty_percent :: "int \<Rightarrow> nat \<Rightarrow> bool" where
  \<comment> \<open>\<open>lastSpace > maxChars * 0.6\<close>. The only limit the program passes is 450, where the
      double product \<open>450 * 0.6\<close> is exactly 270; the comparison is written over the
      integers.\<close>
  "beyond_sixty_percent lastSpace maxChars \<longleftrightarrow> 3 * int maxChars < 5 * lastSpace"

definition truncateForQuery :: "jsstring \<Rightarrow> nat \<Rightarrow> jsstring" where
  "truncateForQuery text maxChars =
     (let t = trim text in
      if length t \<le> maxChars then t
      else
        (let slice = take maxChars t;
             lastSpace = lastIndexOf slice SPACE
         in if beyond_sixty_percent lastSpace maxChars then trim (take (nat lastSpace) slice)
            else trim slice))"

definition cut_position :: "nat \<Rightarrow> jsstring \<Rightarrow> nat" where
  \<comment> \<open>\<open>cutAt\<close> in the loop of \<open>chunkText\<close>.\<close>
  "cut_position maxChars remaining =
     (let slice = take maxChars remaining;
          lastSpace = lastIndexOf slice SPACE
      in if beyond_sixty_percent lastSpace maxChars then nat lastSpace else maxChars)"

partial_function (option) chunk_loop :: "nat \<Rightarrow> jsstring list \<Rightarrow> jsstring \<Rightarrow> jsstring list option" where
  \<comment> \<open>The \<open>while\<close> loop of \<open>chunkText\<close> with the statement after it; the loop state is
      the array \<open>chunks\<close> and the string \<open>remaining\<close>. \<open>None\<close>: the loop does not end.\<close>
  "chunk_loop maxChars chunks remaining =
     (if length remaining > maxChars then
        chunk_loop maxChars
          (if trim (take (cut_position maxChars remaining) remaining) \<noteq> []
           then chunks @ [trim (take (cut_position maxChars remaining) remaining)] else chunks)
          (trim (drop (cut_position maxChars remaining) remaining))
      else Some (if remaining \<noteq> [] then chunks @ [remaining] else chunks))"

declare chunk_loop.simps [code]

definition chunkText :: "jsstring \<Rightarrow> nat \<Rightarrow> jsstring list option" where
  "chunkText text maxChars =
     (let t = trim text in
      if t = [] then Some []
      else if length t \<le> maxChars then Some [t]
      else chunk_loop maxChars [] t)"

definition pack_flush :: "nat \<Rightarrow> jsstring list \<Rightarrow> jsstring \<Rightarrow> jsstring list option" where
  \<comment> \<open>The closure \<open>flush\<close> of \<open>packIntoChunks\<close>: the new value of \<open>out\<close> (\<open>buf\<close> becomes
      empty).\<close>
  "pack_flush maxChars out buf =
     (let t = trim buf in
      if t \<noteq> [] then map_option (\<lambda>cs. out @ cs) (chunkText t maxChars) else Some out)"

fun pack_loop :: "nat \<Rightarrow> jsstring list \<Rightarrow> jsstring list \<Rightarrow> jsstring \<Rightarrow> (jsstring list \<times> jsstring) option" where
  \<comment> \<open>The \<open>for\<close> loop of \<open>packIntoChunks\<close> over the remaining parts, with loop state
      \<open>out\<close> and \<open>buf\<close>.\<close>
  "pack_loop maxChars [] out buf = Some (out, buf)"
| "pack_loop maxChars (raw # parts) out buf =
     (let p = trim raw in
      if p = [] then pack_loop maxChars parts out buf
      else if buf = [] then pack_loop maxChars parts out p
      else
        (let candidate = trim (buf @ [SPACE] @ p) in
         if length candidate \<le> maxChars then pack_loop maxChars parts out candidate
         else (case pack_flush maxChars out buf of
                 None \<Rightarrow> None
               | Some out' \<Rightarrow> pack_loop maxChars parts out' p)))"

definition packIntoChunks :: "jsstring list \<Rightarrow> nat \<Rightarrow> jsstring list option" where
  "packIntoChunks parts maxChars =
     (case pack_loop maxChars parts [] [] of
        None \<Rightarrow> None
      | Some (out, buf) \<Rightarrow> pack_flush maxChars out buf)"


section \<open>Timers of the JavaScript runtime\<close>

datatype timer_kind = InactivityTimer | RestartTimer | PauseTimer | ScrollTimer | CountdownInterval

text \<open>
  The runtime's table of outstanding timers: each entry is the handle returned by
  \<open>setTimeout\<close> (\<open>setInterval\<close>), the callback it runs (named by its kind) and the delay in
  milliseconds. Handles are positive integers, never reused.
\<close>

record timer_table =
  last_handle :: nat
  pending :: "(nat \<times> timer_kind \<times> nat) list"

definition setTimeout :: "timer_kind \<Rightarrow> nat \<Rightarrow> timer_table \<Rightarrow> nat \<times> timer_table" where
  "setTimeout k delay tab =
     (let h = Suc (last_handle tab) in
      (h, \<lparr>last_handle = h, pending = pending tab @ [(h, k, delay)]\<rparr>))"

definition clearTimeout :: "nat \<Rightarrow> timer_table \<Rightarrow> timer_table" where
  \<comment> \<open>Also \<open>clearInterval\<close>; a handle that is not outstanding is ignored.\<close>
  "clearTimeout h tab = tab\<lparr>pending := filter (\<lambda>t. fst t \<noteq> h) (pending tab)\<rparr>"

definition truthy :: "nat option \<Rightarrow> bool" where
  \<comment> \<open>\<open>if (handle)\<close> on a field that holds \<open>null\<close> or a number.\<close>
  "truthy x = (case x of None \<Rightarrow> False | Some h \<Rightarrow> h \<noteq> 0)"

definition timers_of :: "timer_kind \<Rightarrow> timer_table \<Rightarrow> (nat \<times> timer_kind \<times> nat) list" where
  \<comment> \<open>The outstanding timers of one kind.\<close>
  "timers_of k tab = filter (\<lambda>t. fst (snd t) = k) (pending tab)"

section \<open>The translator component\<close>

record segment =
  seg_id :: nat
  original :: jsstring
  translated :: jsstring
  translating :: bool

datatype message =
    NoMessage
  | TranslationUnavailable jsstring
  | MicrophoneNotFound
  | PermissionDenied
  | NetworkError
  | ListeningTimeout

text \<open>
  The fields of \<open>TranslatorComponent\<close> that speech mode reads or writes. \<open>errorMessage\<close>
  holds which of the fixed message texts is shown. \<open>requests\<close> records the calls of
  \<open>translationService.translate\<close> made by \<open>appendSegment\<close>, in call order: the segment
  id, the text and the source language. \<open>ui_timers\<close> are the outstanding timers set by
  the component.
\<close>

record component =
  originalText :: jsstring
  translatedText :: jsstring
  isListening :: bool
  isTranslating :: bool
  selectedLanguage :: string
  errorMessage :: message
  timeRemaining :: nat
  countdownInterval :: "nat option"
  scrollScheduleTimer :: "nat option"
  pendingTranslations :: nat
  nextSegmentId :: nat
  segments :: "segment list"
  interimOriginal :: jsstring
  interimTranslated :: jsstring
  manualMode :: bool
  speechBuffer :: jsstring
  speechPauseTimer :: "nat option"
  requests :: "(nat \<times> jsstring \<times> string) list"
  ui_timers :: timer_table

definition component_init :: "string \<Rightarrow> component" where
  \<comment> \<open>The field initialisers, with the language that \<open>ngOnInit\<close> reads from storage.\<close>
  "component_init lang =
     \<lparr>originalText = [], translatedText = [], isListening = False, isTranslating = False,
      selectedLanguage = lang, errorMessage = NoMessage, timeRemaining = 120,
      countdownInterval = None, scrollScheduleTimer = None, pendingTranslations = 0,
      nextSegmentId = 1, segments = [], interimOriginal = [], interimTranslated = [],
      manualMode = False, speechBuffer = [], speechPauseTimer = None, requests = [],
      ui_timers = \<lparr>last_handle = 0, pending = []\<rparr>\<rparr>"

subsection \<open>Display strings\<close>

fun join_lines :: "jsstring list \<Rightarrow> jsstring" where
  \<comment> \<open>\<open>xs.join('\n')\<close>\<close>
  "join_lines [] = []"
| "join_lines [x] = x"
| "join_lines (x # y # ys) = x @ [0x0A] @ join_lines (y # ys)"

definition translating_placeholder :: jsstring where
  \<comment> \<open>The hourglass U+23F3, a space, \<open>Translating\<close> and the ellipsis U+2026.\<close>
  "translating_placeholder = [0x23F3, 0x20] @ js ''Translating'' @ [0x2026]"

definition rendered :: "segment \<Rightarrow> jsstring" where
  \<comment> \<open>The arrow function mapped over the segments in \<open>rebuildDisplayStrings\<close>.\<close>
  "rendered s =
     (if translating s \<and> (translated s = [] \<or> length (trim (translated s)) = 0)
      then translating_placeholder else translated s)"

definition rebuildDisplayStrings :: "component \<Rightarrow> component" where
  "rebuildDisplayStrings c =
     (if manualMode c then c
      else c\<lparr>originalText :=
                join_lines (map original (segments c)
                            @ (if interimOriginal c \<noteq> [] then [interimOriginal c] else [])),
             translatedText :=
                join_lines (map rendered (segments c)
                            @ (if interimTranslated c \<noteq> [] then [interimTranslated c] else []))\<rparr>)"

subsection \<open>Segments and translate responses\<close>

fun findIndex :: "('a \<Rightarrow> bool) \<Rightarrow> 'a list \<Rightarrow> nat option" where
  \<comment> \<open>\<open>xs.findIndex(p)\<close>, with \<open>None\<close> for \<open>-1\<close>.\<close>
  "findIndex p [] = None"
| "findIndex p (x # xs) = (if p x then Some 0 else map_option Suc (findIndex p xs))"

definition updateSegment :: "nat \<Rightarrow> jsstring \<Rightarrow> bool \<Rightarrow> component \<Rightarrow> component" where
  \<comment> \<open>Every caller passes a patch with both \<open>translated\<close> and \<open>translating\<close>.\<close>
  "updateSegment i tr tg c =
     (case findIndex (\<lambda>s. seg_id s = i) (segments c) of
        None \<Rightarrow> c
      | Some idx \<Rightarrow>
          c\<lparr>segments := (segments c)[idx := (segments c ! idx)\<lparr>translated := tr, translating := tg\<rparr>]\<rparr>)"

definition appendSegment :: "jsstring \<Rightarrow> component \<Rightarrow> component" where
  "appendSegment orig c =
     (let sourceLang = selectedLanguage c;
          safeOriginal = truncateForQuery orig 450;
          i = nextSegmentId c;
          c1 = c\<lparr>nextSegmentId := i + 1,
                 segments := segments c @
                   [\<lparr>seg_id = i, original = safeOriginal, translated = [], translating = True\<rparr>]\<rparr>
      in if sourceLang = [] then rebuildDisplayStrings (updateSegment i [] False c1)
         else c1\<lparr>pendingTranslations := pendingTranslations c1 + 1,
                 isTranslating := True,
                 requests := requests c1 @ [(i, safeOriginal, sourceLang)]\<rparr>)"

text \<open>
  What the translate capability delivers to the subscriber of segment \<open>i\<close>: a result
  object (its \<open>error\<close> and \<open>translatedText\<close> properties, \<open>None\<close> when undefined), or a
  failure.
\<close>

datatype translate_response =
    Next (res_error: "jsstring option") (res_translatedText: "jsstring option")
  | Failure

definition segment_resolved :: "component \<Rightarrow> component" where
  \<comment> \<open>The common tail of both callbacks of \<open>appendSegment\<close>.\<close>
  "segment_resolved c =
     (let n = pendingTranslations c - 1 in
      rebuildDisplayStrings (c\<lparr>pendingTranslations := n, isTranslating := (n > 0)\<rparr>))"

fun on_translate_response :: "nat \<Rightarrow> translate_response \<Rightarrow> component \<Rightarrow> component" where
  "on_translate_response i (Next err txt) c =
     (case (if err = Some [] then None else err) of
        Some e \<Rightarrow>
          segment_resolved ((updateSegment i [] False c)\<lparr>errorMessage := TranslationUnavailable e\<rparr>)
      | None \<Rightarrow>
          segment_resolved (updateSegment i (case txt of None \<Rightarrow> [] | Some t \<Rightarrow> t) False c))"
| "on_translate_response i Failure c = segment_resolved (updateSegment i [] False c)"

definition response_text :: "translate_response \<Rightarrow> jsstring" where
  \<comment> \<open>The translation stored for a response.\<close>
  "response_text r =
     (case r of
        Next err txt \<Rightarrow>
          (if err \<noteq> None \<and> err \<noteq> Some [] then [] else (case txt of None \<Rightarrow> [] | Some t \<Rightarrow> t))
      | Failure \<Rightarrow> [])"

subsection \<open>Timers of the component\<close>

definition clearSpeechPauseTimer :: "component \<Rightarrow> component" where
  "clearSpeechPauseTimer c =
     (case speechPauseTimer c of
        None \<Rightarrow> c
      | Some h \<Rightarrow>
          if h \<noteq> 0 then c\<lparr>ui_timers := clearTimeout h (ui_timers c), speechPauseTimer := None\<rparr>
          else c)"

definition resetSpeechPauseTimer :: "component \<Rightarrow> component" where
  "resetSpeechPauseTimer c =
     (let c1 = clearSpeechPauseTimer c;
          (h, tab) = setTimeout PauseTimer 1300 (ui_timers c1)
      in c1\<lparr>ui_timers := tab, speechPauseTimer := Some h\<rparr>)"

definition clearScrollScheduleTimer :: "component \<Rightarrow> component" where
  "clearScrollScheduleTimer c =
     (case scrollScheduleTimer c of
        None \<Rightarrow> c
      | Some h \<Rightarrow>
          if h \<noteq> 0 then c\<lparr>ui_timers := clearTimeout h (ui_timers c), scrollScheduleTimer := None\<rparr>
          else c)"

definition scheduleAutoScrollToLatest :: "component \<Rightarrow> component" where
  "scheduleAutoScrollToLatest c =
     (let c1 = clearScrollScheduleTimer c;
          (h, tab) = setTimeout ScrollTimer 0 (ui_timers c1)
      in c1\<lparr>ui_timers := tab, scrollScheduleTimer := Some h\<rparr>)"

definition resetCountdownToFull :: "component \<Rightarrow> component" where
  "resetCountdownToFull c = (if isListening c then c\<lparr>timeRemaining := 120\<rparr> else c)"

definition startCountdownTimer :: "component \<Rightarrow> component" where
  "startCountdownTimer c =
     (if truthy (countdownInterval c) then c
      else
        (let c1 = c\<lparr>timeRemaining := 120\<rparr>;
             (h, tab) = setTimeout CountdownInterval 1000 (ui_timers c1)
         in c1\<lparr>ui_timers := tab, countdownInterval := Some h\<rparr>))"

definition stopCountdownTimer :: "component \<Rightarrow> component" where
  "stopCountdownTimer c =
     (let c1 = (case countdownInterval c of
                  None \<Rightarrow> c
                | Some h \<Rightarrow>
                    if h \<noteq> 0
                    then c\<lparr>ui_timers := clearTimeout h (ui_timers c), countdownInterval := None\<rparr>
                    else c)
      in c1\<lparr>timeRemaining := 120\<rparr>)"

subsection \<open>The speech buffer\<close>

definition flushSpeechBuffer :: "bool \<Rightarrow> component \<Rightarrow> component option" where
  \<comment> \<open>\<open>None\<close>: the call does not return (the loop of \<open>chunkText\<close> does not end).\<close>
  "flushSpeechBuffer force c =
     (let input = trim (speechBuffer c) in
      if input = [] then
        Some (rebuildDisplayStrings (c\<lparr>interimOriginal := [], interimTranslated := []\<rparr>))
      else
        (let extr = extractCompletedSentences input;
             rest = trim (remainder extr);
             toTranslate = (if force then completed extr @ (if rest \<noteq> [] then [rest] else [])
                            else completed extr)
         in case (if toTranslate \<noteq> []
                  then map_option (\<lambda>pieces. foldl (\<lambda>c' piece. appendSegment piece c') c pieces)
                         (packIntoChunks toTranslate 450)
                  else Some c) of
              None \<Rightarrow> None
            | Some c1 \<Rightarrow>
                (let buf = (if force then [] else rest) in
                 Some (rebuildDisplayStrings
                         (c1\<lparr>speechBuffer := buf, interimOriginal := buf, interimTranslated := []\<rparr>)))))"

definition on_transcript :: "jsstring \<Rightarrow> bool \<Rightarrow> component \<Rightarrow> component option" where
  \<comment> \<open>The subscriber of \<open>transcript$\<close> in \<open>ngOnInit\<close>, for a result \<open>{text, isFinal}\<close>.\<close>
  "on_transcript text isFinal c =
     (let c1 = (if manualMode c
                then clearSpeechPauseTimer
                       (c\<lparr>manualMode := False, segments := [], interimOriginal := [],
                          interimTranslated := [], speechBuffer := []\<rparr>)
                else c);
          c2 = resetCountdownToFull c1;
          c3 = resetSpeechPauseTimer c2
      in if isFinal then
           (let finalText = trim text in
            if finalText = [] then Some c3
            else flushSpeechBuffer False
                   (c3\<lparr>speechBuffer := joinWithSpace (speechBuffer c3) finalText\<rparr>))
         else Some (rebuildDisplayStrings
                      (c3\<lparr>interimOriginal := joinWithSpace (speechBuffer c3) (trim text),
                          interimTranslated := []\<rparr>)))"

definition on_listening :: "bool \<Rightarrow> component \<Rightarrow> component option" where
  \<comment> \<open>The subscriber of \<open>isListening$\<close>.\<close>
  "on_listening listening c =
     (let wasListening = isListening c;
          c1 = c\<lparr>isListening := listening\<rparr>
      in if listening \<and> \<not> wasListening then Some (startCountdownTimer c1)
         else if \<not> listening \<and> wasListening then
           map_option stopCountdownTimer (flushSpeechBuffer True (clearSpeechPauseTimer c1))
         else Some c1)"

definition handleError :: "string \<Rightarrow> component \<Rightarrow> component" where
  "handleError error c =
     (if error = ''no-speech'' then c
      else if error = ''audio-capture'' then c\<lparr>errorMessage := MicrophoneNotFound, isListening := False\<rparr>
      else if error = ''not-allowed'' then c\<lparr>errorMessage := PermissionDenied, isListening := False\<rparr>
      else if error = ''network'' then c\<lparr>errorMessage := NetworkError, isListening := False\<rparr>
      else if error = ''timeout'' then c\<lparr>errorMessage := ListeningTimeout, isListening := False\<rparr>
      else if error = ''aborted'' then c
      else c)"

definition clearText :: "component \<Rightarrow> component" where
  "clearText c =
     clearSpeechPauseTimer
       (c\<lparr>originalText := [], translatedText := [], errorMessage := NoMessage, segments := [],
          interimOriginal := [], interimTranslated := [], manualMode := False,
          speechBuffer := []\<rparr>)"

definition onTextChange :: "jsstring \<Rightarrow> component \<Rightarrow> component" where
  \<comment> \<open>The state change of manual typing; the debounced translation it queues is outside
      speech mode.\<close>
  "onTextChange text c =
     (let c1 = c\<lparr>manualMode := True, segments := [], interimOriginal := [],
                 interimTranslated := [], originalText := text\<rparr>
      in if text = [] \<or> length (trim text) = 0 then c1\<lparr>translatedText := []\<rparr> else c1)"

definition ngOnDestroy :: "component \<Rightarrow> component" where
  \<comment> \<open>The timers it cancels (the calls into the services change no field of the component).\<close>
  "ngOnDestroy c = clearScrollScheduleTimer (clearSpeechPauseTimer (stopCountdownTimer c))"

definition countdown_tick :: "component \<Rightarrow> component" where
  \<comment> \<open>The callback of \<open>setInterval\<close> in \<open>startCountdownTimer\<close>.\<close>
  "countdown_tick c =
     (if timeRemaining c > 0 then c\<lparr>timeRemaining := timeRemaining c - 1\<rparr>
      else stopCountdownTimer c)"

definition remove_timer :: "nat \<Rightarrow> timer_table \<Rightarrow> timer_table" where
  \<comment> \<open>A timeout that fires leaves the table.\<close>
  "remove_timer h tab = tab\<lparr>pending := filter (\<lambda>t. fst t \<noteq> h) (pending tab)\<rparr>"

definition ui_timer_fires :: "nat \<Rightarrow> component \<Rightarrow> component option" where
  \<comment> \<open>The runtime runs the callback of the outstanding timer with handle \<open>h\<close>.\<close>
  "ui_timer_fires h c =
     (case find (\<lambda>t. fst t = h) (pending (ui_timers c)) of
        None \<Rightarrow> Some c
      | Some (_, k, _) \<Rightarrow>
          (case k of
             PauseTimer \<Rightarrow> flushSpeechBuffer True (c\<lparr>ui_timers := remove_timer h (ui_timers c)\<rparr>)
           | ScrollTimer \<Rightarrow>
               Some (c\<lparr>ui_timers := remove_timer h (ui_timers c), scrollScheduleTimer := None\<rparr>)
           | CountdownInterval \<Rightarrow> Some (countdown_tick c)
           | _ \<Rightarrow> Some c))"

datatype ui_event =
    Transcript jsstring bool
  | ListeningChanged bool
  | ErrorEvent string
  | TranslateResponse nat translate_response
  | DisplayChanged
  | UiTimerFires nat
  | ClearText
  | TextChange jsstring
  | Destroy

fun ui_step :: "ui_event \<Rightarrow> component \<Rightarrow> component option" where
  "ui_step (Transcript text isFinal) c = on_transcript text isFinal c"
| "ui_step (ListeningChanged b) c = on_listening b c"
| "ui_step (ErrorEvent e) c = Some (handleError e c)"
| "ui_step (TranslateResponse i r) c = Some (on_translate_response i r c)"
| "ui_step DisplayChanged c = Some (scheduleAutoScrollToLatest c)"
| "ui_step (UiTimerFires h) c = ui_timer_fires h c"
| "ui_step ClearText c = Some (clearText c)"
| "ui_step (TextChange text) c = Some (onTextChange text c)"
| "ui_step Destroy c = Some (ngOnDestroy c)"

fun ui_run :: "ui_event list \<Rightarrow> component \<Rightarrow> component option" where
  "ui_run [] c = Some c"
| "ui_run (e # es) c = (case ui_step e c of None \<Rightarrow> None | Some c' \<Rightarrow> ui_run es c')"


section \<open>The speech recognition service\<close>

datatype engine_call = EngineStart | EngineStop

datatype engine_reply = Returns | Throws string

datatype 'a completion = Normal 'a | Thrown string

datatype microphone = NoNavigator | NoMediaDevices | Granted | Denied

text \<open>
  The fields of \<open>SpeechRecognitionService\<close>. \<open>recognition\<close> tells whether the engine object
  exists (the field is not \<open>null\<close>) and \<open>recognition_lang\<close> is its \<open>lang\<close> property. The
  three subjects are the lists of the values passed to \<open>next\<close>, oldest first; the value of
  the behaviour subject is the last one, initially \<open>false\<close>. \<open>engine_calls\<close> records the
  calls of \<open>start()\<close> and \<open>stop()\<close> that returned. \<open>svc_timers\<close> are the outstanding timers
  set by the service.
\<close>

record service =
  recognition :: bool
  recognition_lang :: string
  transcriptSubject :: "(jsstring \<times> bool) list"
  isListeningSubject :: "bool list"
  errorSubject :: "string list"
  isManuallyStopped :: bool
  listeningTimeout :: "nat option"
  shouldBeListening :: bool
  isRecognizing :: bool
  restartTimeout :: "nat option"
  restartAttempts :: nat
  isMobileDevice :: bool
  lastNonCriticalError :: "string option"
  engine_calls :: "engine_call list"
  svc_timers :: timer_table

definition listeningDuration :: nat where
  "listeningDuration = 120000"

definition service_init :: "bool \<Rightarrow> bool \<Rightarrow> service" where
  \<comment> \<open>The constructor in a browser window, for a device class and a browser with or
      without the engine.\<close>
  "service_init mobile supported =
     \<lparr>recognition = supported, recognition_lang = ''en-US'', transcriptSubject = [],
      isListeningSubject = [],
      errorSubject = (if supported then [] else [''Speech recognition not supported'']),
      isManuallyStopped = False, listeningTimeout = None, shouldBeListening = False,
      isRecognizing = False, restartTimeout = None, restartAttempts = 0,
      isMobileDevice = mobile, lastNonCriticalError = None, engine_calls = [],
      svc_timers = \<lparr>last_handle = 0, pending = []\<rparr>\<rparr>"

definition listening_value :: "service \<Rightarrow> bool" where
  \<comment> \<open>\<open>isListeningSubject.value\<close>\<close>
  "listening_value s = last (False # isListeningSubject s)"

definition clearListeningTimeout :: "service \<Rightarrow> service" where
  "clearListeningTimeout s =
     (case listeningTimeout s of
        None \<Rightarrow> s
      | Some h \<Rightarrow>
          if h \<noteq> 0 then s\<lparr>svc_timers := clearTimeout h (svc_timers s), listeningTimeout := None\<rparr>
          else s)"

definition startListeningTimeout :: "service \<Rightarrow> service" where
  "startListeningTimeout s =
     (let s1 = clearListeningTimeout s;
          (h, tab) = setTimeout InactivityTimer listeningDuration (svc_timers s1)
      in s1\<lparr>svc_timers := tab, listeningTimeout := Some h\<rparr>)"

definition clearRestartTimeout :: "service \<Rightarrow> service" where
  "clearRestartTimeout s =
     (case restartTimeout s of
        None \<Rightarrow> s
      | Some h \<Rightarrow>
          if h \<noteq> 0 then s\<lparr>svc_timers := clearTimeout h (svc_timers s), restartTimeout := None\<rparr>
          else s)"

definition scheduleRestart :: "service \<Rightarrow> service" where
  "scheduleRestart s =
     (let s1 = clearRestartTimeout s;
          base = (if isMobileDevice s1 then 1500 else 300);
          step = (if isMobileDevice s1 then 500 else 250);
          cap = (if isMobileDevice s1 then 5000 else 2000);
          extraNoSpeechPenalty =
            (if isMobileDevice s1 \<and> lastNonCriticalError s1 = Some ''no-speech'' then 1000 else 0);
          delay = min (base + restartAttempts s1 * step + extraNoSpeechPenalty) cap;
          s2 = s1\<lparr>restartAttempts := restartAttempts s1 + 1\<rparr>;
          (h, tab) = setTimeout RestartTimer delay (svc_timers s2)
      in s2\<lparr>svc_timers := tab, restartTimeout := Some h\<rparr>)"

definition engine_start :: "engine_reply \<Rightarrow> service \<Rightarrow> service completion" where
  \<comment> \<open>\<open>this.recognition.start()\<close>\<close>
  "engine_start reply s =
     (case reply of
        Returns \<Rightarrow> Normal (s\<lparr>engine_calls := engine_calls s @ [EngineStart]\<rparr>)
      | Throws e \<Rightarrow> Thrown e)"

definition engine_stop :: "engine_reply \<Rightarrow> service \<Rightarrow> service completion" where
  \<comment> \<open>\<open>this.recognition.stop()\<close>\<close>
  "engine_stop reply s =
     (case reply of
        Returns \<Rightarrow> Normal (s\<lparr>engine_calls := engine_calls s @ [EngineStop]\<rparr>)
      | Throws e \<Rightarrow> Thrown e)"

definition startRecognitionSafely :: "engine_reply \<Rightarrow> service \<Rightarrow> service" where
  "startRecognitionSafely reply s =
     (if \<not> recognition s then s
      else if isRecognizing s then s
      else (case engine_start reply s of
              Normal s' \<Rightarrow> s'
            | Thrown e \<Rightarrow> scheduleRestart s))"

definition stopListening :: "engine_reply \<Rightarrow> service \<Rightarrow> service" where
  "stopListening reply s =
     (let s1 = clearListeningTimeout
                 (clearRestartTimeout (s\<lparr>isManuallyStopped := True, shouldBeListening := False\<rparr>))
      in if recognition s1 \<and> listening_value s1 then
           (case engine_stop reply s1 of Normal s' \<Rightarrow> s' | Thrown e \<Rightarrow> s1)
         else s1)"

subsection \<open>Engine callbacks\<close>

fun collect_results :: "(jsstring \<times> bool) list \<Rightarrow> jsstring \<Rightarrow> jsstring \<Rightarrow> jsstring \<times> jsstring" where
  \<comment> \<open>The loop of \<open>onresult\<close> over the results from \<open>resultIndex\<close> on, each given by the
      transcript of its first alternative and \<open>isFinal\<close>; the loop state is
      \<open>interimTranscript\<close> and \<open>finalTranscript\<close>.\<close>
  "collect_results [] interim final = (interim, final)"
| "collect_results ((transcript, isFinal) # rs) interim final =
     (if isFinal then collect_results rs interim (final @ transcript @ [SPACE])
      else collect_results rs (interim @ transcript) final)"

definition onresult :: "(jsstring \<times> bool) list \<Rightarrow> service \<Rightarrow> service" where
  "onresult results s =
     (case collect_results results [] [] of
        (interimTranscript, finalTranscript) \<Rightarrow>
          (let s1 = (if trim finalTranscript \<noteq> []
                     then s\<lparr>transcriptSubject := transcriptSubject s @ [(trim finalTranscript, True)]\<rparr>
                     else s);
               s2 = (if trim interimTranscript \<noteq> []
                     then s1\<lparr>transcriptSubject := transcriptSubject s1 @ [(trim interimTranscript, False)]\<rparr>
                     else s1)
           in if (trim finalTranscript \<noteq> [] \<or> trim interimTranscript \<noteq> []) \<and> shouldBeListening s2
              then startListeningTimeout s2 else s2))"

definition criticalErrors :: "string list" where
  "criticalErrors = [''not-allowed'', ''audio-capture'', ''service-not-allowed'']"

definition onerror :: "string \<Rightarrow> engine_reply \<Rightarrow> service \<Rightarrow> service" where
  "onerror error reply s =
     (if error = ''no-speech'' then s\<lparr>lastNonCriticalError := Some ''no-speech''\<rparr>
      else
        (let s1 = s\<lparr>lastNonCriticalError := (if error = [] then None else Some error)\<rparr> in
         if error \<in> set criticalErrors
         then stopListening reply (s1\<lparr>errorSubject := errorSubject s1 @ [error]\<rparr>)
         else s1\<lparr>errorSubject := errorSubject s1 @ [error]\<rparr>))"

definition onstart :: "service \<Rightarrow> service" where
  "onstart s =
     s\<lparr>isRecognizing := True, restartAttempts := 0,
       isListeningSubject := isListeningSubject s @ [True]\<rparr>"

definition onend :: "service \<Rightarrow> service" where
  "onend s =
     (let s1 = s\<lparr>isRecognizing := False\<rparr> in
      if isManuallyStopped s1 \<or> \<not> shouldBeListening s1
      then clearListeningTimeout (s1\<lparr>isListeningSubject := isListeningSubject s1 @ [False]\<rparr>)
      else scheduleRestart s1)"

subsection \<open>Starting to listen\<close>

definition requestMicrophonePermission :: "microphone \<Rightarrow> bool completion" where
  \<comment> \<open>Reading \<open>navigator.mediaDevices\<close> throws where there is no \<open>navigator\<close>; a rejected
      \<open>getUserMedia\<close> is caught and gives \<open>false\<close>.\<close>
  "requestMicrophonePermission mic =
     (case mic of
        NoNavigator \<Rightarrow> Thrown ''ReferenceError''
      | NoMediaDevices \<Rightarrow> Normal False
      | Granted \<Rightarrow> Normal True
      | Denied \<Rightarrow> Normal False)"

definition startListening_begin :: "service \<Rightarrow> service \<times> bool" where
  \<comment> \<open>\<open>startListening\<close> up to its \<open>await\<close>; the flag tells whether the call is now waiting
      for the permission request (otherwise it has returned).\<close>
  "startListening_begin s =
     (if \<not> recognition s
      then (s\<lparr>errorSubject := errorSubject s @ [''Speech recognition not available'']\<rparr>, False)
      else (s\<lparr>shouldBeListening := True\<rparr>, True))"

definition startListening_resume ::
    "string \<Rightarrow> microphone \<Rightarrow> engine_reply \<Rightarrow> service \<Rightarrow> service completion" where
  \<comment> \<open>\<open>startListening\<close> from the point where the permission request settles.\<close>
  "startListening_resume language mic reply s =
     (case requestMicrophonePermission mic of
        Thrown e \<Rightarrow> Normal (s\<lparr>errorSubject := errorSubject s @ [''not-allowed'']\<rparr>)
      | Normal hasPermission \<Rightarrow>
          if \<not> hasPermission then Normal (s\<lparr>errorSubject := errorSubject s @ [''not-allowed'']\<rparr>)
          else
            (case Normal (startListeningTimeout
                            (startRecognitionSafely reply
                               (s\<lparr>isManuallyStopped := False, recognition_lang := language\<rparr>))) of
               Normal s' \<Rightarrow> Normal s'
             | Thrown e \<Rightarrow>
                 Normal (s\<lparr>errorSubject := errorSubject s @
                             [if e = [] then ''Failed to start listening'' else e]\<rparr>)))"

definition startListening ::
    "string \<Rightarrow> microphone \<Rightarrow> engine_reply \<Rightarrow> service \<Rightarrow> service completion" where
  \<comment> \<open>A call of \<open>startListening\<close> during whose wait no other event is delivered.\<close>
  "startListening language mic reply s =
     (case startListening_begin s of
        (s1, False) \<Rightarrow> Normal s1
      | (s1, True) \<Rightarrow> startListening_resume language mic reply s1)"

subsection \<open>Timer callbacks and events of the service\<close>

definition restart_callback :: "engine_reply \<Rightarrow> service \<Rightarrow> service" where
  \<comment> \<open>The callback armed by \<open>scheduleRestart\<close>.\<close>
  "restart_callback reply s =
     (if \<not> shouldBeListening s \<or> isManuallyStopped s \<or> \<not> recognition s then s
      else startRecognitionSafely reply (s\<lparr>lastNonCriticalError := None\<rparr>))"

definition inactivity_callback :: "engine_reply \<Rightarrow> service \<Rightarrow> service" where
  \<comment> \<open>The callback armed by \<open>startListeningTimeout\<close>.\<close>
  "inactivity_callback reply s =
     (let s1 = s\<lparr>isManuallyStopped := True\<rparr> in
      if recognition s1 then
        (case engine_stop reply s1 of
           Normal s2 \<Rightarrow> s2\<lparr>errorSubject := errorSubject s2 @ [''timeout'']\<rparr>
         | Thrown e \<Rightarrow> s1)
      else s1)"

definition svc_timer_fires :: "nat \<Rightarrow> engine_reply \<Rightarrow> service \<Rightarrow> service" where
  \<comment> \<open>The runtime runs the callback of the outstanding timer with handle \<open>h\<close>.\<close>
  "svc_timer_fires h reply s =
     (case find (\<lambda>t. fst t = h) (pending (svc_timers s)) of
        None \<Rightarrow> s
      | Some (_, k, _) \<Rightarrow>
          (case k of
             InactivityTimer \<Rightarrow> inactivity_callback reply (s\<lparr>svc_timers := remove_timer h (svc_timers s)\<rparr>)
           | RestartTimer \<Rightarrow> restart_callback reply (s\<lparr>svc_timers := remove_timer h (svc_timers s)\<rparr>)
           | _ \<Rightarrow> s))"

datatype svc_event =
    StartListeningCalled
  | PermissionSettled string microphone engine_reply
  | StopListening engine_reply
  | OnResult "(jsstring \<times> bool) list"
  | OnError string engine_reply
  | OnStart
  | OnEnd
  | SvcTimerFires nat engine_reply

fun svc_step :: "svc_event \<Rightarrow> service \<Rightarrow> service completion" where
  \<comment> \<open>One event delivered to the service. The engine callbacks are installed only on an
      existing engine, and only a call that passed the engine check waits for the
      permission request.\<close>
  "svc_step StartListeningCalled s = Normal (fst (startListening_begin s))"
| "svc_step (PermissionSettled language mic reply) s =
     (if recognition s then startListening_resume language mic reply s else Normal s)"
| "svc_step (StopListening reply) s = Normal (stopListening reply s)"
| "svc_step (OnResult results) s = Normal (if recognition s then onresult results s else s)"
| "svc_step (OnError error reply) s = Normal (if recognition s then onerror error reply s else s)"
| "svc_step OnStart s = Normal (if recognition s then onstart s else s)"
| "svc_step OnEnd s = Normal (if recognition s then onend s else s)"
| "svc_step (SvcTimerFires h reply) s = Normal (svc_timer_fires h reply s)"

fun svc_run :: "svc_event list \<Rightarrow> service \<Rightarrow> service completion" where
  "svc_run [] s = Normal s"
| "svc_run (e # es) s = (case svc_step e s of Thrown x \<Rightarrow> Thrown x | Normal s' \<Rightarrow> svc_run es s')"


section \<open>Predicates used to state the properties\<close>

definition is_trimmed :: "jsstring \<Rightarrow> bool" where
  \<comment> \<open>No white space at either end.\<close>
  "is_trimmed s \<longleftrightarrow> s = [] \<or> (\<not> isWhiteSpace (hd s) \<and> \<not> isWhiteSpace (last s))"

definition piece_ok :: "nat \<Rightarrow> jsstring \<Rightarrow> bool" where
  \<comment> \<open>A chunk ready for dispatch: not empty, trimmed, within the limit.\<close>
  "piece_ok m c \<longleftrightarrow> c \<noteq> [] \<and> is_trimmed c \<and> length c \<le> m"





definition resolve_all :: "(nat \<times> translate_response) list \<Rightarrow> component \<Rightarrow> component" where
  \<comment> \<open>Translate responses delivered one after the other, each for the segment id of its
      request.\<close>
  "resolve_all rs c = foldl (\<lambda>c' (i, r). on_translate_response i r c') c rs"

definition resolved_text :: "(nat \<times> translate_response) list \<Rightarrow> segment \<Rightarrow> jsstring" where
  \<comment> \<open>The line shown for a segment once the responses \<open>rs\<close> have arrived.\<close>
  "resolved_text rs s =
     (case map_of rs (seg_id s) of None \<Rightarrow> rendered s | Some r \<Rightarrow> response_text r)"

definition resolve :: "(nat \<times> translate_response) list \<Rightarrow> segment \<Rightarrow> segment" where
  "resolve rs s =
     (case map_of rs (seg_id s) of
        None \<Rightarrow> s
      | Some r \<Rightarrow> s\<lparr>translated := response_text r, translating := False\<rparr>)"

definition ids_ok :: "component \<Rightarrow> bool" where
  \<comment> \<open>Segment ids are distinct and below the next id to be handed out.\<close>
  "ids_ok c \<longleftrightarrow>
     distinct (map seg_id (segments c)) \<and> (\<forall>i\<in>set (map seg_id (segments c)). i < nextSegmentId c)"

definition table_ok :: "(timer_kind \<Rightarrow> nat option) \<Rightarrow> timer_table \<Rightarrow> bool" where
  \<comment> \<open>Handles are positive, distinct and not beyond the last one handed out, and every
      outstanding timer is the one whose handle the field of its kind holds.\<close>
  "table_ok field tab \<longleftrightarrow>
     distinct (map fst (pending tab))
     \<and> (\<forall>t\<in>set (pending tab).
           0 < fst t \<and> fst t \<le> last_handle tab \<and> field (fst (snd t)) = Some (fst t))"

definition svc_fields :: "service \<Rightarrow> timer_kind \<Rightarrow> nat option" where
  "svc_fields s k =
     (case k of InactivityTimer \<Rightarrow> listeningTimeout s | RestartTimer \<Rightarrow> restartTimeout s
      | _ \<Rightarrow> None)"

definition ui_fields :: "component \<Rightarrow> timer_kind \<Rightarrow> nat option" where
  "ui_fields c k =
     (case k of PauseTimer \<Rightarrow> speechPauseTimer c | ScrollTimer \<Rightarrow> scrollScheduleTimer c
      | CountdownInterval \<Rightarrow> countdownInterval c | _ \<Rightarrow> None)"

definition svc_inv :: "service \<Rightarrow> bool" where
  "svc_inv s \<longleftrightarrow> table_ok (svc_fields s) (svc_timers s)"

definition ui_inv :: "component \<Rightarrow> bool" where
  "ui_inv c \<longleftrightarrow> table_ok (ui_fields c) (ui_timers c)"

definition restart_delay :: "service \<Rightarrow> nat" where
  \<comment> \<open>The backoff formula of the specification, \<open>min(base + attempts * step + penalty, cap)\<close>,
      with the profile of the device class.\<close>
  "restart_delay s =
     min ((if isMobileDevice s then 1500 else 300)
          + restartAttempts s * (if isMobileDevice s then 500 else 250)
          + (if isMobileDevice s \<and> lastNonCriticalError s = Some ''no-speech'' then 1000 else 0))
         (if isMobileDevice s then 5000 else 2000)"




section \<open>Properties of the string functions\<close>

lemma strip_ws_Nil [simp]: "strip_ws [] = []"
  by (simp add: strip_ws_def)

lemma strip_ws_Cons [simp]:
  "strip_ws (c # cs) = (if isWhiteSpace c then strip_ws cs else c # strip_ws cs)"
  by (simp add: strip_ws_def)

lemma strip_ws_append [simp]: "strip_ws (xs @ ys) = strip_ws xs @ strip_ws ys"
  by (simp add: strip_ws_def)

lemma strip_ws_dropWhile [simp]: "strip_ws (dropWhile isWhiteSpace s) = strip_ws s"
  by (induction s) auto

lemma strip_ws_rev: "strip_ws (rev s) = rev (strip_ws s)"
  by (simp add: strip_ws_def rev_filter)

lemma strip_ws_trim [simp]: "strip_ws (trim s) = strip_ws s"
  by (simp add: trim_def strip_ws_rev)

lemma isWhiteSpace_SPACE [simp]: "isWhiteSpace SPACE"
  by (simp add: isWhiteSpace_def SPACE_def)

lemma strip_ws_collapse_ws [simp]: "strip_ws (collapse_ws s) = strip_ws s"
proof (induction s rule: collapse_ws.induct)
  case 1
  show ?case by simp
next
  case (2 c cs)
  then show ?case by (cases "isWhiteSpace c") simp_all
qed

lemma set_trim: "set (trim s) \<subseteq> set s"
  by (auto simp: trim_def dest!: set_dropWhileD)

lemma trim_snoc:
  assumes "\<not> isWhiteSpace t"
  shows "trim (xs @ [t]) = dropWhile isWhiteSpace xs @ [t]"
proof -
  have "dropWhile isWhiteSpace (xs @ [t]) = dropWhile isWhiteSpace xs @ [t]"
    using assms by (induction xs) auto
  then show ?thesis using assms by (simp add: trim_def)
qed

lemma concat_code_points [simp]: "concat (code_points s) = s"
  by (induction s rule: code_points.induct) auto

lemma terminator_not_ws: "isTerminatorUnit c \<Longrightarrow> \<not> isWhiteSpace c"
  by (auto simp: isTerminatorUnit_def isWhiteSpace_def)

lemma terminator_not_surrogate:
  "isTerminatorUnit c \<Longrightarrow> \<not> isHighSurrogate c \<and> \<not> isLowSurrogate c"
  by (auto simp: isTerminatorUnit_def isHighSurrogate_def isLowSurrogate_def)

lemma isSentenceTerminator_iff:
  "isSentenceTerminator ch \<longleftrightarrow> (\<exists>c. ch = [c] \<and> isTerminatorUnit c)"
  by (auto simp: isSentenceTerminator_def isTerminatorUnit_def)

lemma code_points_plain: "ch \<in> set (code_points s) \<Longrightarrow> plain_char ch"
proof (induction s rule: code_points.induct)
  case 1
  then show ?case by simp
next
  case (2 c)
  then show ?case by (auto simp: plain_char_def isSentenceTerminator_iff)
next
  case (3 c d cs)
  then show ?case
    by (auto simp: plain_char_def isSentenceTerminator_iff dest: terminator_not_surrogate
             split: if_splits)
qed

section \<open>Sentence extraction keeps the text\<close>

lemma extract_loop_inv:
  assumes "extract_loop chs done current = (D, cur)"
    and "\<forall>ch\<in>set chs. plain_char ch"
    and "\<forall>c\<in>set done. sentence_ok c"
    and "\<forall>u\<in>set current. \<not> isTerminatorUnit u"
  shows "strip_ws (concat D @ cur) = strip_ws (concat done @ current @ concat chs)
       \<and> (\<forall>c\<in>set D. sentence_ok c) \<and> (\<forall>u\<in>set cur. \<not> isTerminatorUnit u)"
  using assms
proof (induction chs arbitrary: "done" current)
  case Nil
  then show ?case by simp
next
  case (Cons ch chs)
  show ?case
  proof (cases "isSentenceTerminator ch")
    case True
    then obtain t where t: "ch = [t]" "isTerminatorUnit t"
      by (auto simp: isSentenceTerminator_iff)
    have tr: "trim (current @ ch) = dropWhile isWhiteSpace current @ [t]"
      using t by (simp add: trim_snoc terminator_not_ws)
    let ?s = "trim (current @ ch)"
    have run: "extract_loop chs (done @ [?s]) [] = (D, cur)"
      using Cons.prems(1) True tr by (simp add: Let_def)
    have ok: "\<forall>c\<in>set (done @ [?s]). sentence_ok c"
      using Cons.prems(3) t tr by (auto simp: sentence_ok_def)
    have "strip_ws (concat D @ cur) = strip_ws (concat (done @ [?s]) @ [] @ concat chs)
       \<and> (\<forall>c\<in>set D. sentence_ok c) \<and> (\<forall>u\<in>set cur. \<not> isTerminatorUnit u)"
      by (rule Cons.IH [OF run _ ok]) (use Cons.prems(2) in auto)
    then show ?thesis by simp
  next
    case False
    have run: "extract_loop chs done (current @ ch) = (D, cur)"
      using Cons.prems(1) False by (simp add: Let_def)
    have "plain_char ch" using Cons.prems(2) by simp
    with False have nt: "\<forall>u\<in>set (current @ ch). \<not> isTerminatorUnit u"
      using Cons.prems(4) by (auto simp: plain_char_def)
    have "strip_ws (concat D @ cur) = strip_ws (concat done @ (current @ ch) @ concat chs)
       \<and> (\<forall>c\<in>set D. sentence_ok c) \<and> (\<forall>u\<in>set cur. \<not> isTerminatorUnit u)"
      by (rule Cons.IH [OF run _ Cons.prems(3) nt]) (use Cons.prems(2) in auto)
    then show ?thesis by simp
  qed
qed

lemma extract_props:
  "(\<forall>c\<in>set (completed (extractCompletedSentences s)). sentence_ok c)
   \<and> (\<forall>u\<in>set (remainder (extractCompletedSentences s)). \<not> isTerminatorUnit u)
   \<and> strip_ws (concat (completed (extractCompletedSentences s))
               @ remainder (extractCompletedSentences s)) = strip_ws s"
proof (cases "trim (collapse_ws s) = []")
  case True
  have "strip_ws (trim (collapse_ws s)) = strip_ws s" by simp
  with True have "strip_ws s = []" by simp
  with True show ?thesis by (simp add: extractCompletedSentences_def)
next
  case False
  obtain D cur where run: "extract_loop (code_points (trim (collapse_ws s))) [] [] = (D, cur)"
    by (cases "extract_loop (code_points (trim (collapse_ws s))) [] []")
  have inv: "strip_ws (concat D @ cur)
               = strip_ws (concat [] @ [] @ concat (code_points (trim (collapse_ws s))))
       \<and> (\<forall>c\<in>set D. sentence_ok c) \<and> (\<forall>u\<in>set cur. \<not> isTerminatorUnit u)"
    by (rule extract_loop_inv [OF run]) (auto intro: code_points_plain)
  have res: "extractCompletedSentences s = \<lparr>completed = D, remainder = trim cur\<rparr>"
    using False run by (simp add: extractCompletedSentences_def)
  have "\<forall>u\<in>set (trim cur). \<not> isTerminatorUnit u"
    using inv set_trim by blast
  with inv show ?thesis
    unfolding res by simp
qed

text \<open>
  Claim C10. For every input string, \<open>extractCompletedSentences\<close> returns completed
  sentences that are each non-empty and end in one of the six terminators, a remainder
  that contains no terminator, and the completed sentences followed by the remainder
  are, white space removed, the input with white space removed: no other character is
  lost, duplicated or reordered.
\<close>

theorem extractCompletedSentences_content:
  "(\<forall>c\<in>set (completed (extractCompletedSentences s)). c \<noteq> [] \<and> isTerminatorUnit (last c))
   \<and> (\<forall>u\<in>set (remainder (extractCompletedSentences s)). \<not> isTerminatorUnit u)
   \<and> strip_ws (concat (completed (extractCompletedSentences s))
               @ remainder (extractCompletedSentences s)) = strip_ws s"
  using extract_props [of s] by (simp add: sentence_ok_def)

theorem extractCompletedSentences_content_witness:
  "completed (extractCompletedSentences (js ''Hi  there. Yo'')) = [js ''Hi there.'']
   \<and> remainder (extractCompletedSentences (js ''Hi  there. Yo'')) = js ''Yo''
   \<and> js ''Hi there.'' \<noteq> [] \<and> isTerminatorUnit (last (js ''Hi there.''))
   \<and> strip_ws (js ''Hi there.'' @ js ''Yo'') = strip_ws (js ''Hi  there. Yo'')"
proof -
  have ev: "extractCompletedSentences (js ''Hi  there. Yo'')
              = \<lparr>completed = [js ''Hi there.''], remainder = js ''Yo''\<rparr>"
    by code_simp
  show ?thesis
    using extractCompletedSentences_content [of "js ''Hi  there. Yo''"] by (simp add: ev)
qed

lemma dropWhile_id: "xs = [] \<or> \<not> P (hd xs) \<Longrightarrow> dropWhile P xs = xs"
  by (cases xs) auto

lemma trim_trimmed: "is_trimmed s \<Longrightarrow> trim s = s"
proof (cases "s = []")
  case True
  then show ?thesis by (simp add: trim_def)
next
  case False
  assume "is_trimmed s"
  with False have h: "\<not> isWhiteSpace (hd s)" and l: "\<not> isWhiteSpace (last s)"
    by (auto simp: is_trimmed_def)
  have 1: "dropWhile isWhiteSpace s = s" using h by (simp add: dropWhile_id)
  have "hd (rev s) = last s" using False by (simp add: hd_rev)
  with l have 2: "dropWhile isWhiteSpace (rev s) = rev s" by (simp add: dropWhile_id)
  show ?thesis by (simp add: trim_def 1 2)
qed

lemma is_trimmed_trim [simp]: "is_trimmed (trim s)"
proof -
  let ?t = "dropWhile isWhiteSpace s"
  let ?u = "dropWhile isWhiteSpace (rev ?t)"
  show ?thesis
  proof (cases "?u = []")
    case True
    then show ?thesis by (simp add: trim_def is_trimmed_def)
  next
    case False
    then have t: "?t \<noteq> []" by (metis dropWhile.simps(1) rev.simps(1))
    have hu: "\<not> isWhiteSpace (hd ?u)" using False by (rule hd_dropWhile)
    have ht: "\<not> isWhiteSpace (hd ?t)" using t by (rule hd_dropWhile)
    obtain ws where ws: "rev ?t = ws @ ?u"
      by (metis takeWhile_dropWhile_id)
    then have "last ?u = last (rev ?t)" using False by (metis last_appendR)
    also have "\<dots> = hd ?t" using t by (simp add: last_rev)
    finally have lu: "\<not> isWhiteSpace (last ?u)" using ht by simp
    have "hd (rev ?u) = last ?u" "last (rev ?u) = hd ?u"
      using False by (simp_all add: hd_rev last_rev)
    with hu lu False show ?thesis by (simp add: trim_def is_trimmed_def)
  qed
qed

lemma trim_idem [simp]: "trim (trim s) = trim s"
  by (simp add: trim_trimmed)

lemma length_trim_le: "length (trim s) \<le> length s"
proof -
  have "length (trim s) \<le> length (dropWhile isWhiteSpace s)"
    unfolding trim_def using length_dropWhile_le [of isWhiteSpace "rev (dropWhile isWhiteSpace s)"]
    by simp
  also have "\<dots> \<le> length s" by (rule length_dropWhile_le)
  finally show ?thesis .
qed

lemma trim_Nil [simp]: "trim [] = []"
  by (simp add: trim_def)

lemma last_index_below_range:
  "- 1 \<le> last_index_below s c k \<and> last_index_below s c k < int k"
  by (induction k) auto

lemma last_index_below_hit:
  "0 \<le> last_index_below s c k \<Longrightarrow> s ! nat (last_index_below s c k) = c"
  by (induction k) (auto split: if_splits)

lemma last_index_below_found:
  "i < k \<Longrightarrow> s ! i = c \<Longrightarrow> (\<forall>j. i < j \<and> j < k \<longrightarrow> s ! j \<noteq> c) \<Longrightarrow> last_index_below s c k = int i"
proof (induction k)
  case 0
  then show ?case by simp
next
  case (Suc k)
  show ?case
  proof (cases "i = k")
    case True
    with Suc.prems show ?thesis by simp
  next
    case False
    with Suc.prems have "i < k" by simp
    moreover have "s ! k \<noteq> c" using Suc.prems False by auto
    ultimately show ?thesis using Suc by simp
  qed
qed

lemma cut_position_bounds:
  assumes "0 < m"
  shows "0 < cut_position m r \<and> cut_position m r \<le> m"
proof -
  let ?ls = "lastIndexOf (take m r) SPACE"
  have "?ls < int (length (take m r))"
    unfolding lastIndexOf_def using last_index_below_range by blast
  then have "?ls < int m" by simp
  then show ?thesis using assms
    by (auto simp: cut_position_def Let_def beyond_sixty_percent_def)
qed

lemma cut_position_at_space:
  assumes "m < length r" "k < m" "3 * m < 5 * k" "r ! k = SPACE"
    and "\<forall>j. k < j \<and> j < m \<longrightarrow> r ! j \<noteq> SPACE"
  shows "cut_position m r = k"
proof -
  have len: "length (take m r) = m" using assms(1) by simp
  have "last_index_below (take m r) SPACE m = int k"
    by (rule last_index_below_found) (use assms in auto)
  then have "lastIndexOf (take m r) SPACE = int k" by (simp only: lastIndexOf_def len)
  then show ?thesis using assms(3)
    by (simp add: cut_position_def beyond_sixty_percent_def)
qed

lemma cut_position_at_limit:
  assumes "m < length r" and "\<forall>j. 3 * m < 5 * j \<and> j < m \<longrightarrow> r ! j \<noteq> SPACE"
  shows "cut_position m r = m"
proof -
  let ?ls = "lastIndexOf (take m r) SPACE"
  have len: "length (take m r) = m" using assms(1) by simp
  have "\<not> beyond_sixty_percent ?ls m"
  proof
    assume b: "beyond_sixty_percent ?ls m"
    then have pos: "0 \<le> ?ls" by (simp add: beyond_sixty_percent_def)
    have lt: "?ls < int m"
      unfolding lastIndexOf_def len using last_index_below_range by blast
    have "take m r ! nat ?ls = SPACE"
      unfolding lastIndexOf_def using pos last_index_below_hit by (simp add: lastIndexOf_def)
    moreover have "nat ?ls < m" using lt pos by simp
    ultimately have "r ! nat ?ls = SPACE" by simp
    moreover have "3 * m < 5 * nat ?ls" using b pos by (simp add: beyond_sixty_percent_def)
    ultimately show False using assms(2) \<open>nat ?ls < m\<close> by blast
  qed
  then show ?thesis by (simp add: cut_position_def)
qed

lemma is_trimmed_prefix:
  assumes "is_trimmed r" "0 < k" "k \<le> length r"
  shows "trim (take k r) \<noteq> []"
proof -
  from assms have ne: "r \<noteq> []" by auto
  with assms(1) have h: "\<not> isWhiteSpace (hd r)" by (simp add: is_trimmed_def)
  have "hd r \<in> set (take k r)" using ne assms(2) by (cases r; cases k) auto
  then have "strip_ws (take k r) \<noteq> []" using h by (auto simp: strip_ws_def filter_empty_conv)
  then show ?thesis by (metis strip_ws_trim strip_ws_Nil)
qed

lemma chunk_loop_props:
  assumes "0 < m"
  shows "is_trimmed r \<Longrightarrow>
         \<exists>res. (\<forall>chunks. chunk_loop m chunks r = Some (chunks @ res))
               \<and> (\<forall>c\<in>set res. piece_ok m c)
               \<and> strip_ws (concat res) = strip_ws r"
proof (induction "length r" arbitrary: r rule: less_induct)
  case less
  show ?case
  proof (cases "m < length r")
    case False
    have "\<forall>chunks. chunk_loop m chunks r = Some (chunks @ (if r \<noteq> [] then [r] else []))"
      using False by (subst chunk_loop.simps) simp
    moreover have "\<forall>c\<in>set (if r \<noteq> [] then [r] else []). piece_ok m c"
      using False less.prems by (simp add: piece_ok_def)
    moreover have "strip_ws (concat (if r \<noteq> [] then [r] else [])) = strip_ws r"
      by simp
    ultimately show ?thesis by blast
  next
    case True
    let ?cut = "cut_position m r"
    let ?chunk = "trim (take ?cut r)"
    let ?r' = "trim (drop ?cut r)"
    have cut: "0 < ?cut" "?cut \<le> m" using cut_position_bounds [OF assms] by auto
    have ne: "?chunk \<noteq> []"
      by (rule is_trimmed_prefix [OF less.prems cut(1)]) (use cut True in simp)
    have "length ?r' \<le> length (drop ?cut r)" by (rule length_trim_le)
    then have shorter: "length ?r' < length r" using cut True by simp
    have "length ?chunk \<le> length (take ?cut r)" by (rule length_trim_le)
    then have ok: "piece_ok m ?chunk" using ne cut by (simp add: piece_ok_def)
    obtain res where res: "\<forall>chunks. chunk_loop m chunks ?r' = Some (chunks @ res)"
      "\<forall>c\<in>set res. piece_ok m c" "strip_ws (concat res) = strip_ws ?r'"
      using less.hyps [OF shorter] by auto
    have step: "chunk_loop m chunks r = chunk_loop m (chunks @ [?chunk]) ?r'" for chunks
      by (subst chunk_loop.simps) (simp add: True ne)
    have run: "\<forall>chunks. chunk_loop m chunks r = Some (chunks @ (?chunk # res))"
      using step res(1) by simp
    have "strip_ws (concat (?chunk # res)) = strip_ws (take ?cut r) @ strip_ws (drop ?cut r)"
      using res(3) by simp
    also have "\<dots> = strip_ws (take ?cut r @ drop ?cut r)" by (simp only: strip_ws_append)
    finally have keep: "strip_ws (concat (?chunk # res)) = strip_ws r" by simp
    have "\<forall>c\<in>set (?chunk # res). piece_ok m c" using ok res(2) by simp
    with run keep show ?thesis by blast
  qed
qed

lemma chunk_loop_step:
  assumes "0 < m" "is_trimmed r" "m < length r"
  shows "\<exists>rest. chunk_loop m [] (trim (drop (cut_position m r) r)) = Some rest
          \<and> chunk_loop m [] r = Some (trim (take (cut_position m r) r) # rest)"
proof -
  let ?cut = "cut_position m r"
  let ?chunk = "trim (take ?cut r)"
  let ?r' = "trim (drop ?cut r)"
  have cut: "0 < ?cut" "?cut \<le> m" using cut_position_bounds [OF assms(1)] by auto
  have ne: "?chunk \<noteq> []"
    by (rule is_trimmed_prefix [OF assms(2) cut(1)]) (use cut assms in simp)
  have step: "chunk_loop m [] r = chunk_loop m [?chunk] ?r'"
    by (subst chunk_loop.simps) (simp add: assms ne)
  obtain res where res: "\<forall>chunks. chunk_loop m chunks ?r' = Some (chunks @ res)"
    using chunk_loop_props [OF assms(1), of ?r'] by auto
  have "chunk_loop m [] ?r' = Some res" using res by (metis append_Nil)
  moreover have "chunk_loop m [?chunk] ?r' = Some (?chunk # res)" using res by (metis append_Cons append_Nil)
  ultimately show ?thesis using step by simp
qed

lemma chunkText_eq_loop: "chunkText text m = chunk_loop m [] (trim text)"
proof (cases "m < length (trim text)")
  case True
  then show ?thesis by (auto simp: chunkText_def Let_def)
next
  case False
  then show ?thesis by (subst chunk_loop.simps) (simp add: chunkText_def Let_def)
qed

lemma chunkText_props:
  assumes "0 < m"
  shows "\<exists>res. chunkText text m = Some res \<and> (\<forall>c\<in>set res. piece_ok m c)
               \<and> strip_ws (concat res) = strip_ws text"
proof -
  obtain res where res: "\<forall>chunks. chunk_loop m chunks (trim text) = Some (chunks @ res)"
      "\<forall>c\<in>set res. piece_ok m c" "strip_ws (concat res) = strip_ws (trim text)"
    using chunk_loop_props [OF assms, of "trim text"] by auto
  have "chunk_loop m [] (trim text) = Some res" using res(1) by (metis append_Nil)
  with res show ?thesis by (simp add: chunkText_eq_loop)
qed


lemma chunkText_trim [simp]: "chunkText (trim text) m = chunkText text m"
  by (simp add: chunkText_eq_loop)

lemma pack_flush_props:
  assumes "0 < m"
  shows "\<exists>res. pack_flush m out buf = Some (out @ res) \<and> (\<forall>c\<in>set res. piece_ok m c)
               \<and> strip_ws (concat res) = strip_ws buf"
proof (cases "trim buf = []")
  case True
  then have "strip_ws buf = []" by (metis strip_ws_trim strip_ws_Nil)
  with True show ?thesis by (simp add: pack_flush_def)
next
  case False
  obtain res where "chunkText buf m = Some res" "\<forall>c\<in>set res. piece_ok m c"
      "strip_ws (concat res) = strip_ws buf"
    using chunkText_props [OF assms, of buf] by auto
  with False show ?thesis by (simp add: pack_flush_def)
qed

lemma pack_loop_props:
  assumes "0 < m"
  shows "\<exists>res buf'. pack_loop m parts out buf = Some (out @ res, buf')
           \<and> (\<forall>c\<in>set res. piece_ok m c)
           \<and> strip_ws (concat res @ buf') = strip_ws (buf @ concat parts)"
proof (induction parts arbitrary: out buf)
  case Nil
  show ?case by simp
next
  case (Cons raw parts)
  let ?p = "trim raw"
  let ?cand = "trim (buf @ [SPACE] @ ?p)"
  consider (skip) "?p = []"
    | (first) "?p \<noteq> []" "buf = []"
    | (join) "?p \<noteq> []" "buf \<noteq> []" "length ?cand \<le> m"
    | (flush) "?p \<noteq> []" "buf \<noteq> []" "\<not> length ?cand \<le> m"
    by blast
  then show ?case
  proof cases
    case skip
    then have "strip_ws raw = []" by (metis strip_ws_trim strip_ws_Nil)
    moreover obtain res buf' where "pack_loop m parts out buf = Some (out @ res, buf')"
      "\<forall>c\<in>set res. piece_ok m c" "strip_ws (concat res @ buf') = strip_ws (buf @ concat parts)"
      using Cons.IH [of out buf] by auto
    ultimately show ?thesis using skip by simp
  next
    case first
    obtain res buf' where "pack_loop m parts out ?p = Some (out @ res, buf')"
      "\<forall>c\<in>set res. piece_ok m c" "strip_ws (concat res @ buf') = strip_ws (?p @ concat parts)"
      using Cons.IH [of out ?p] by auto
    then show ?thesis using first by simp
  next
    case join
    obtain res buf' where "pack_loop m parts out ?cand = Some (out @ res, buf')"
      "\<forall>c\<in>set res. piece_ok m c" "strip_ws (concat res @ buf') = strip_ws (?cand @ concat parts)"
      using Cons.IH [of out ?cand] by auto
    then show ?thesis using join by simp
  next
    case flush
    obtain r1 where r1: "pack_flush m out buf = Some (out @ r1)" "\<forall>c\<in>set r1. piece_ok m c"
      "strip_ws (concat r1) = strip_ws buf"
      using pack_flush_props [OF assms, of out buf] by auto
    obtain res buf' where r2: "pack_loop m parts (out @ r1) ?p = Some ((out @ r1) @ res, buf')"
      "\<forall>c\<in>set res. piece_ok m c" "strip_ws (concat res @ buf') = strip_ws (?p @ concat parts)"
      using Cons.IH [of "out @ r1" ?p] by auto
    have "pack_loop m (raw # parts) out buf = Some (out @ (r1 @ res), buf')"
      using flush r1(1) r2(1) by simp
    moreover have "\<forall>c\<in>set (r1 @ res). piece_ok m c" using r1(2) r2(2) by auto
    moreover have "strip_ws (concat (r1 @ res) @ buf') = strip_ws (buf @ concat (raw # parts))"
      using r1(3) r2(3) by simp
    ultimately show ?thesis by blast
  qed
qed

lemma packIntoChunks_props:
  assumes "0 < m"
  shows "\<exists>pieces. packIntoChunks parts m = Some pieces \<and> (\<forall>c\<in>set pieces. piece_ok m c)
           \<and> strip_ws (concat pieces) = strip_ws (concat parts)"
proof -
  obtain res buf' where 1: "pack_loop m parts [] [] = Some ([] @ res, buf')"
      "\<forall>c\<in>set res. piece_ok m c" "strip_ws (concat res @ buf') = strip_ws ([] @ concat parts)"
    using pack_loop_props [OF assms, of parts "[]" "[]"] by blast
  obtain r2 where 2: "pack_flush m res buf' = Some (res @ r2)" "\<forall>c\<in>set r2. piece_ok m c"
      "strip_ws (concat r2) = strip_ws buf'"
    using pack_flush_props [OF assms, of res buf'] by auto
  have "packIntoChunks parts m = Some (res @ r2)" using 1(1) 2(1) by (simp add: packIntoChunks_def)
  moreover have "\<forall>c\<in>set (res @ r2). piece_ok m c" using 1(2) 2(2) by auto
  moreover have "strip_ws (concat (res @ r2)) = strip_ws (concat parts)" using 1(3) 2(3) by simp
  ultimately show ?thesis by blast
qed

lemma is_trimmed_join:
  assumes "is_trimmed x" "is_trimmed y" "x \<noteq> []" "y \<noteq> []"
  shows "is_trimmed (x @ [SPACE] @ y)"
  using assms by (simp add: is_trimmed_def)

lemma pack_two_joined:
  assumes "trim a \<noteq> []" "trim b \<noteq> []" "length (trim a @ [SPACE] @ trim b) \<le> m"
  shows "packIntoChunks [a, b] m = Some [trim a @ [SPACE] @ trim b]"
proof -
  let ?c = "trim a @ [SPACE] @ trim b"
  have "is_trimmed ?c" using assms by (intro is_trimmed_join) simp_all
  then have c: "trim ?c = ?c" by (rule trim_trimmed)
  have "chunkText ?c m = Some [?c]" using assms(3) c by (simp add: chunkText_def)
  then show ?thesis using assms c
    by (simp add: packIntoChunks_def pack_flush_def)
qed

lemma pack_two_separate:
  assumes "trim a \<noteq> []" "trim b \<noteq> []" "m < length (trim a @ [SPACE] @ trim b)"
    and "chunkText a m = Some xs" "chunkText b m = Some ys"
  shows "packIntoChunks [a, b] m = Some (xs @ ys)"
proof -
  let ?c = "trim a @ [SPACE] @ trim b"
  have "is_trimmed ?c" using assms by (intro is_trimmed_join) simp_all
  then have c: "trim ?c = ?c" by (rule trim_trimmed)
  show ?thesis using assms c
    by (simp add: packIntoChunks_def pack_flush_def)
qed

lemma pack_single: "packIntoChunks [t] m = chunkText t m"
proof (cases "trim t = []")
  case True
  then show ?thesis by (simp add: packIntoChunks_def pack_flush_def chunkText_def)
next
  case False
  then show ?thesis
    by (cases "chunkText t m") (simp_all add: packIntoChunks_def pack_flush_def)
qed

lemma chunkText_split:
  assumes "0 < m" "m < length (trim t)"
  shows "\<exists>rest. chunkText (drop (cut_position m (trim t)) (trim t)) m = Some rest
          \<and> chunkText t m = Some (trim (take (cut_position m (trim t)) (trim t)) # rest)"
  using chunk_loop_step [OF assms(1) is_trimmed_trim assms(2)]
  by (simp add: chunkText_eq_loop)

text \<open>
  Claim C8. Packing with the limit of 450 characters joins two non-empty chunks with a
  single space into one chunk when the joined text has at most 450 characters; when
  it has more, each of the two is chunked on its own and the results follow each other
  (two separate chunks when each fits the limit). A text longer than 450 is cut at its
  last space among the first 450 characters, provided that space lies beyond position
  270 (60 percent of the limit), and otherwise exactly after 450 characters; the rest is
  chunked in the same way. Packing always returns, and its chunks are non-empty, at most
  450 long and keep every character that is not white space, in order.
\<close>

theorem packIntoChunks_limit:
  "(trim a \<noteq> [] \<and> trim b \<noteq> [] \<and> length (trim a @ [SPACE] @ trim b) \<le> 450
      \<longrightarrow> packIntoChunks [a, b] 450 = Some [trim a @ [SPACE] @ trim b])
   \<and> (trim a \<noteq> [] \<and> trim b \<noteq> [] \<and> 450 < length (trim a @ [SPACE] @ trim b)
      \<longrightarrow> (\<exists>xs ys. chunkText a 450 = Some xs \<and> chunkText b 450 = Some ys
                   \<and> packIntoChunks [a, b] 450 = Some (xs @ ys)))
   \<and> (trim a \<noteq> [] \<and> trim b \<noteq> [] \<and> 450 < length (trim a @ [SPACE] @ trim b)
        \<and> length (trim a) \<le> 450 \<and> length (trim b) \<le> 450
      \<longrightarrow> packIntoChunks [a, b] 450 = Some [trim a, trim b])
   \<and> (450 < length (trim t) \<and> 270 < k \<and> k < 450 \<and> trim t ! k = SPACE
        \<and> (\<forall>j. k < j \<and> j < 450 \<longrightarrow> trim t ! j \<noteq> SPACE)
      \<longrightarrow> (\<exists>rest. chunkText (drop k (trim t)) 450 = Some rest
                 \<and> packIntoChunks [t] 450 = Some (trim (take k (trim t)) # rest)))
   \<and> (450 < length (trim t) \<and> (\<forall>j. 270 < j \<and> j < 450 \<longrightarrow> trim t ! j \<noteq> SPACE)
      \<longrightarrow> (\<exists>rest. chunkText (drop 450 (trim t)) 450 = Some rest
                 \<and> packIntoChunks [t] 450 = Some (trim (take 450 (trim t)) # rest)))
   \<and> (\<exists>pieces. packIntoChunks parts 450 = Some pieces
         \<and> (\<forall>c\<in>set pieces. c \<noteq> [] \<and> length c \<le> 450)
         \<and> strip_ws (concat pieces) = strip_ws (concat parts))"
proof (intro conjI impI)
  assume "trim a \<noteq> [] \<and> trim b \<noteq> [] \<and> length (trim a @ [SPACE] @ trim b) \<le> 450"
  then show "packIntoChunks [a, b] 450 = Some [trim a @ [SPACE] @ trim b]"
    by (intro pack_two_joined) simp_all
next
  assume h: "trim a \<noteq> [] \<and> trim b \<noteq> [] \<and> 450 < length (trim a @ [SPACE] @ trim b)"
  obtain xs ys where "chunkText a 450 = Some xs" "chunkText b 450 = Some ys"
    using chunkText_props [of 450 a] chunkText_props [of 450 b] by auto
  moreover from this h have "packIntoChunks [a, b] 450 = Some (xs @ ys)"
    by (intro pack_two_separate) simp_all
  ultimately show "\<exists>xs ys. chunkText a 450 = Some xs \<and> chunkText b 450 = Some ys
                   \<and> packIntoChunks [a, b] 450 = Some (xs @ ys)" by blast
next
  assume h: "trim a \<noteq> [] \<and> trim b \<noteq> [] \<and> 450 < length (trim a @ [SPACE] @ trim b)
        \<and> length (trim a) \<le> 450 \<and> length (trim b) \<le> 450"
  then have "chunkText a 450 = Some [trim a]" "chunkText b 450 = Some [trim b]"
    by (simp_all add: chunkText_def)
  with h have "packIntoChunks [a, b] 450 = Some ([trim a] @ [trim b])"
    by (intro pack_two_separate) simp_all
  then show "packIntoChunks [a, b] 450 = Some [trim a, trim b]" by simp
next
  assume h: "450 < length (trim t) \<and> 270 < k \<and> k < 450 \<and> trim t ! k = SPACE
        \<and> (\<forall>j. k < j \<and> j < 450 \<longrightarrow> trim t ! j \<noteq> SPACE)"
  then have "cut_position 450 (trim t) = k"
    by (intro cut_position_at_space) simp_all
  with h chunkText_split [of 450 t]
  show "\<exists>rest. chunkText (drop k (trim t)) 450 = Some rest
                 \<and> packIntoChunks [t] 450 = Some (trim (take k (trim t)) # rest)"
    by (simp add: pack_single)
next
  assume h: "450 < length (trim t) \<and> (\<forall>j. 270 < j \<and> j < 450 \<longrightarrow> trim t ! j \<noteq> SPACE)"
  then have "cut_position 450 (trim t) = 450"
    by (intro cut_position_at_limit) simp_all
  with h chunkText_split [of 450 t]
  show "\<exists>rest. chunkText (drop 450 (trim t)) 450 = Some rest
                 \<and> packIntoChunks [t] 450 = Some (trim (take 450 (trim t)) # rest)"
    by (simp add: pack_single)
next
  show "\<exists>pieces. packIntoChunks parts 450 = Some pieces
         \<and> (\<forall>c\<in>set pieces. c \<noteq> [] \<and> length c \<le> 450)
         \<and> strip_ws (concat pieces) = strip_ws (concat parts)"
    using packIntoChunks_props [of 450 parts] by (auto simp: piece_ok_def)
qed


lemma is_trimmed_replicate: "\<not> isWhiteSpace x \<Longrightarrow> is_trimmed (replicate n x)"
  by (cases n) (simp_all add: is_trimmed_def)

theorem packIntoChunks_limit_witness:
  "packIntoChunks [js ''A short sentence.'', js ''Another one.''] 450
     = Some [js ''A short sentence. Another one.'']
   \<and> packIntoChunks [replicate 300 0x61, replicate 300 0x62] 450
     = Some [replicate 300 0x61, replicate 300 0x62]
   \<and> (\<exists>rest. packIntoChunks [replicate 280 0x61 @ SPACE # replicate 300 0x62] 450
               = Some (replicate 280 0x61 # rest))
   \<and> (\<exists>rest. packIntoChunks [replicate 451 0x61] 450 = Some (replicate 450 0x61 # rest))"
proof -
  have nws: "\<not> isWhiteSpace 0x61" "\<not> isWhiteSpace 0x62"
    by (simp_all add: isWhiteSpace_def)
  have ta: "trim (js ''A short sentence.'') = js ''A short sentence.''"
    and tb: "trim (js ''Another one.'') = js ''Another one.''"
    by (simp_all add: trim_def js_def isWhiteSpace_def)
  have 1: "packIntoChunks [js ''A short sentence.'', js ''Another one.''] 450
             = Some [js ''A short sentence. Another one.'']"
    using packIntoChunks_limit [of "js ''A short sentence.''" "js ''Another one.''", THEN conjunct1]
    by (simp add: ta tb) (simp add: js_def SPACE_def)
  have ra: "trim (replicate 300 0x61) = replicate 300 0x61"
    and rb: "trim (replicate 300 0x62) = replicate 300 0x62"
    by (simp_all add: trim_trimmed is_trimmed_replicate nws)
  have 2: "packIntoChunks [replicate 300 0x61, replicate 300 0x62] 450
             = Some [replicate 300 0x61, replicate 300 0x62]"
    using packIntoChunks_limit [of "replicate 300 0x61" "replicate 300 0x62",
        THEN conjunct2, THEN conjunct2, THEN conjunct1]
    by (simp add: ra rb)
  let ?t = "replicate 280 0x61 @ SPACE # replicate 300 0x62 :: jsstring"
  have "is_trimmed ?t" using nws by (simp add: is_trimmed_def)
  then have tt: "trim ?t = ?t" by (rule trim_trimmed)
  have far: "\<forall>j. 280 < j \<and> j < 450 \<longrightarrow> ?t ! j \<noteq> SPACE"
    by (auto simp: nth_append SPACE_def)
  have at: "?t ! 280 = SPACE" by (simp add: nth_append)
  have t280: "trim (replicate 280 0x61) = replicate 280 0x61"
    by (simp add: trim_trimmed is_trimmed_replicate nws)
  have 3: "\<exists>rest. packIntoChunks [?t] 450 = Some (replicate 280 0x61 # rest)"
    using packIntoChunks_limit [of _ _ ?t 280,
        THEN conjunct2, THEN conjunct2, THEN conjunct2, THEN conjunct1] far at
    by (auto simp: tt t280)
  let ?u = "replicate 451 0x61 :: jsstring"
  have tu: "trim ?u = ?u" by (simp add: trim_trimmed is_trimmed_replicate nws)
  have none: "\<forall>j. 270 < j \<and> j < 450 \<longrightarrow> ?u ! j \<noteq> SPACE"
    by (simp add: SPACE_def)
  have u450: "trim (replicate 450 0x61) = replicate 450 0x61"
    by (simp add: trim_trimmed is_trimmed_replicate nws)
  have 4: "\<exists>rest. packIntoChunks [?u] 450 = Some (replicate 450 0x61 # rest)"
    using packIntoChunks_limit [of _ _ ?u _,
        THEN conjunct2, THEN conjunct2, THEN conjunct2, THEN conjunct2, THEN conjunct1] none
    by (auto simp: tu u450)
  from 1 2 3 4 show ?thesis by blast
qed

lemma rebuildDisplayStrings_frame [simp]:
  "isListening (rebuildDisplayStrings c) = isListening c"
  "isTranslating (rebuildDisplayStrings c) = isTranslating c"
  "selectedLanguage (rebuildDisplayStrings c) = selectedLanguage c"
  "errorMessage (rebuildDisplayStrings c) = errorMessage c"
  "timeRemaining (rebuildDisplayStrings c) = timeRemaining c"
  "countdownInterval (rebuildDisplayStrings c) = countdownInterval c"
  "scrollScheduleTimer (rebuildDisplayStrings c) = scrollScheduleTimer c"
  "pendingTranslations (rebuildDisplayStrings c) = pendingTranslations c"
  "nextSegmentId (rebuildDisplayStrings c) = nextSegmentId c"
  "segments (rebuildDisplayStrings c) = segments c"
  "interimOriginal (rebuildDisplayStrings c) = interimOriginal c"
  "interimTranslated (rebuildDisplayStrings c) = interimTranslated c"
  "manualMode (rebuildDisplayStrings c) = manualMode c"
  "speechBuffer (rebuildDisplayStrings c) = speechBuffer c"
  "speechPauseTimer (rebuildDisplayStrings c) = speechPauseTimer c"
  "requests (rebuildDisplayStrings c) = requests c"
  "ui_timers (rebuildDisplayStrings c) = ui_timers c"
  by (simp_all add: rebuildDisplayStrings_def Let_def split: option.splits prod.splits)

lemma updateSegment_frame [simp]:
  "originalText (updateSegment i tr tg c) = originalText c"
  "translatedText (updateSegment i tr tg c) = translatedText c"
  "isListening (updateSegment i tr tg c) = isListening c"
  "isTranslating (updateSegment i tr tg c) = isTranslating c"
  "selectedLanguage (updateSegment i tr tg c) = selectedLanguage c"
  "errorMessage (updateSegment i tr tg c) = errorMessage c"
  "timeRemaining (updateSegment i tr tg c) = timeRemaining c"
  "countdownInterval (updateSegment i tr tg c) = countdownInterval c"
  "scrollScheduleTimer (updateSegment i tr tg c) = scrollScheduleTimer c"
  "pendingTranslations (updateSegment i tr tg c) = pendingTranslations c"
  "nextSegmentId (updateSegment i tr tg c) = nextSegmentId c"
  "interimOriginal (updateSegment i tr tg c) = interimOriginal c"
  "interimTranslated (updateSegment i tr tg c) = interimTranslated c"
  "manualMode (updateSegment i tr tg c) = manualMode c"
  "speechBuffer (updateSegment i tr tg c) = speechBuffer c"
  "speechPauseTimer (updateSegment i tr tg c) = speechPauseTimer c"
  "requests (updateSegment i tr tg c) = requests c"
  "ui_timers (updateSegment i tr tg c) = ui_timers c"
  by (simp_all add: updateSegment_def Let_def split: option.splits prod.splits)

lemma clearSpeechPauseTimer_frame [simp]:
  "originalText (clearSpeechPauseTimer c) = originalText c"
  "translatedText (clearSpeechPauseTimer c) = translatedText c"
  "isListening (clearSpeechPauseTimer c) = isListening c"
  "isTranslating (clearSpeechPauseTimer c) = isTranslating c"
  "selectedLanguage (clearSpeechPauseTimer c) = selectedLanguage c"
  "errorMessage (clearSpeechPauseTimer c) = errorMessage c"
  "timeRemaining (clearSpeechPauseTimer c) = timeRemaining c"
  "countdownInterval (clearSpeechPauseTimer c) = countdownInterval c"
  "scrollScheduleTimer (clearSpeechPauseTimer c) = scrollScheduleTimer c"
  "pendingTranslations (clearSpeechPauseTimer c) = pendingTranslations c"
  "nextSegmentId (clearSpeechPauseTimer c) = nextSegmentId c"
  "segments (clearSpeechPauseTimer c) = segments c"
  "interimOriginal (clearSpeechPauseTimer c) = interimOriginal c"
  "interimTranslated (clearSpeechPauseTimer c) = interimTranslated c"
  "manualMode (clearSpeechPauseTimer c) = manualMode c"
  "speechBuffer (clearSpeechPauseTimer c) = speechBuffer c"
  "requests (clearSpeechPauseTimer c) = requests c"
  by (simp_all add: clearSpeechPauseTimer_def Let_def split: option.splits prod.splits)

lemma resetSpeechPauseTimer_frame [simp]:
  "originalText (resetSpeechPauseTimer c) = originalText c"
  "translatedText (resetSpeechPauseTimer c) = translatedText c"
  "isListening (resetSpeechPauseTimer c) = isListening c"
  "isTranslating (resetSpeechPauseTimer c) = isTranslating c"
  "selectedLanguage (resetSpeechPauseTimer c) = selectedLanguage c"
  "errorMessage (resetSpeechPauseTimer c) = errorMessage c"
  "timeRemaining (resetSpeechPauseTimer c) = timeRemaining c"
  "countdownInterval (resetSpeechPauseTimer c) = countdownInterval c"
  "scrollScheduleTimer (resetSpeechPauseTimer c) = scrollScheduleTimer c"
  "pendingTranslations (resetSpeechPauseTimer c) = pendingTranslations c"
  "nextSegmentId (resetSpeechPauseTimer c) = nextSegmentId c"
  "segments (resetSpeechPauseTimer c) = segments c"
  "interimOriginal (resetSpeechPauseTimer c) = interimOriginal c"
  "interimTranslated (resetSpeechPauseTimer c) = interimTranslated c"
  "manualMode (resetSpeechPauseTimer c) = manualMode c"
  "speechBuffer (resetSpeechPauseTimer c) = speechBuffer c"
  "requests (resetSpeechPauseTimer c) = requests c"
  by (simp_all add: resetSpeechPauseTimer_def clearSpeechPauseTimer_def setTimeout_def Let_def split: option.splits prod.splits)

lemma clearScrollScheduleTimer_frame [simp]:
  "originalText (clearScrollScheduleTimer c) = originalText c"
  "translatedText (clearScrollScheduleTimer c) = translatedText c"
  "isListening (clearScrollScheduleTimer c) = isListening c"
  "isTranslating (clearScrollScheduleTimer c) = isTranslating c"
  "selectedLanguage (clearScrollScheduleTimer c) = selectedLanguage c"
  "errorMessage (clearScrollScheduleTimer c) = errorMessage c"
  "timeRemaining (clearScrollScheduleTimer c) = timeRemaining c"
  "countdownInterval (clearScrollScheduleTimer c) = countdownInterval c"
  "pendingTranslations (clearScrollScheduleTimer c) = pendingTranslations c"
  "nextSegmentId (clearScrollScheduleTimer c) = nextSegmentId c"
  "segments (clearScrollScheduleTimer c) = segments c"
  "interimOriginal (clearScrollScheduleTimer c) = interimOriginal c"
  "interimTranslated (clearScrollScheduleTimer c) = interimTranslated c"
  "manualMode (clearScrollScheduleTimer c) = manualMode c"
  "speechBuffer (clearScrollScheduleTimer c) = speechBuffer c"
  "speechPauseTimer (clearScrollScheduleTimer c) = speechPauseTimer c"
  "requests (clearScrollScheduleTimer c) = requests c"
  by (simp_all add: clearScrollScheduleTimer_def Let_def split: option.splits prod.splits)

lemma scheduleAutoScrollToLatest_frame [simp]:
  "originalText (scheduleAutoScrollToLatest c) = originalText c"
  "translatedText (scheduleAutoScrollToLatest c) = translatedText c"
  "isListening (scheduleAutoScrollToLatest c) = isListening c"
  "isTranslating (scheduleAutoScrollToLatest c) = isTranslating c"
  "selectedLanguage (scheduleAutoScrollToLatest c) = selectedLanguage c"
  "errorMessage (scheduleAutoScrollToLatest c) = errorMessage c"
  "timeRemaining (scheduleAutoScrollToLatest c) = timeRemaining c"
  "countdownInterval (scheduleAutoScrollToLatest c) = countdownInterval c"
  "pendingTranslations (scheduleAutoScrollToLatest c) = pendingTranslations c"
  "nextSegmentId (scheduleAutoScrollToLatest c) = nextSegmentId c"
  "segments (scheduleAutoScrollToLatest c) = segments c"
  "interimOriginal (scheduleAutoScrollToLatest c) = interimOriginal c"
  "interimTranslated (scheduleAutoScrollToLatest c) = interimTranslated c"
  "manualMode (scheduleAutoScrollToLatest c) = manualMode c"
  "speechBuffer (scheduleAutoScrollToLatest c) = speechBuffer c"
  "speechPauseTimer (scheduleAutoScrollToLatest c) = speechPauseTimer c"
  "requests (scheduleAutoScrollToLatest c) = requests c"
  by (simp_all add: scheduleAutoScrollToLatest_def clearScrollScheduleTimer_def setTimeout_def Let_def split: option.splits prod.splits)

lemma resetCountdownToFull_frame [simp]:
  "originalText (resetCountdownToFull c) = originalText c"
  "translatedText (resetCountdownToFull c) = translatedText c"
  "isListening (resetCountdownToFull c) = isListening c"
  "isTranslating (resetCountdownToFull c) = isTranslating c"
  "selectedLanguage (resetCountdownToFull c) = selectedLanguage c"
  "errorMessage (resetCountdownToFull c) = errorMessage c"
  "countdownInterval (resetCountdownToFull c) = countdownInterval c"
  "scrollScheduleTimer (resetCountdownToFull c) = scrollScheduleTimer c"
  "pendingTranslations (resetCountdownToFull c) = pendingTranslations c"
  "nextSegmentId (resetCountdownToFull c) = nextSegmentId c"
  "segments (resetCountdownToFull c) = segments c"
  "interimOriginal (resetCountdownToFull c) = interimOriginal c"
  "interimTranslated (resetCountdownToFull c) = interimTranslated c"
  "manualMode (resetCountdownToFull c) = manualMode c"
  "speechBuffer (resetCountdownToFull c) = speechBuffer c"
  "speechPauseTimer (resetCountdownToFull c) = speechPauseTimer c"
  "requests (resetCountdownToFull c) = requests c"
  "ui_timers (resetCountdownToFull c) = ui_timers c"
  by (simp_all add: resetCountdownToFull_def Let_def split: option.splits prod.splits)

lemma startCountdownTimer_frame [simp]:
  "originalText (startCountdownTimer c) = originalText c"
  "translatedText (startCountdownTimer c) = translatedText c"
  "isListening (startCountdownTimer c) = isListening c"
  "isTranslating (startCountdownTimer c) = isTranslating c"
  "selectedLanguage (startCountdownTimer c) = selectedLanguage c"
  "errorMessage (startCountdownTimer c) = errorMessage c"
  "scrollScheduleTimer (startCountdownTimer c) = scrollScheduleTimer c"
  "pendingTranslations (startCountdownTimer c) = pendingTranslations c"
  "nextSegmentId (startCountdownTimer c) = nextSegmentId c"
  "segments (startCountdownTimer c) = segments c"
  "interimOriginal (startCountdownTimer c) = interimOriginal c"
  "interimTranslated (startCountdownTimer c) = interimTranslated c"
  "manualMode (startCountdownTimer c) = manualMode c"
  "speechBuffer (startCountdownTimer c) = speechBuffer c"
  "speechPauseTimer (startCountdownTimer c) = speechPauseTimer c"
  "requests (startCountdownTimer c) = requests c"
  by (simp_all add: startCountdownTimer_def setTimeout_def Let_def split: option.splits prod.splits)

lemma stopCountdownTimer_frame [simp]:
  "originalText (stopCountdownTimer c) = originalText c"
  "translatedText (stopCountdownTimer c) = translatedText c"
  "isListening (stopCountdownTimer c) = isListening c"
  "isTranslating (stopCountdownTimer c) = isTranslating c"
  "selectedLanguage (stopCountdownTimer c) = selectedLanguage c"
  "errorMessage (stopCountdownTimer c) = errorMessage c"
  "scrollScheduleTimer (stopCountdownTimer c) = scrollScheduleTimer c"
  "pendingTranslations (stopCountdownTimer c) = pendingTranslations c"
  "nextSegmentId (stopCountdownTimer c) = nextSegmentId c"
  "segments (stopCountdownTimer c) = segments c"
  "interimOriginal (stopCountdownTimer c) = interimOriginal c"
  "interimTranslated (stopCountdownTimer c) = interimTranslated c"
  "manualMode (stopCountdownTimer c) = manualMode c"
  "speechBuffer (stopCountdownTimer c) = speechBuffer c"
  "speechPauseTimer (stopCountdownTimer c) = speechPauseTimer c"
  "requests (stopCountdownTimer c) = requests c"
  by (simp_all add: stopCountdownTimer_def Let_def split: option.splits prod.splits)

lemma countdown_tick_frame [simp]:
  "originalText (countdown_tick c) = originalText c"
  "translatedText (countdown_tick c) = translatedText c"
  "isListening (countdown_tick c) = isListening c"
  "isTranslating (countdown_tick c) = isTranslating c"
  "selectedLanguage (countdown_tick c) = selectedLanguage c"
  "errorMessage (countdown_tick c) = errorMessage c"
  "scrollScheduleTimer (countdown_tick c) = scrollScheduleTimer c"
  "pendingTranslations (countdown_tick c) = pendingTranslations c"
  "nextSegmentId (countdown_tick c) = nextSegmentId c"
  "segments (countdown_tick c) = segments c"
  "interimOriginal (countdown_tick c) = interimOriginal c"
  "interimTranslated (countdown_tick c) = interimTranslated c"
  "manualMode (countdown_tick c) = manualMode c"
  "speechBuffer (countdown_tick c) = speechBuffer c"
  "speechPauseTimer (countdown_tick c) = speechPauseTimer c"
  "requests (countdown_tick c) = requests c"
  by (simp_all add: countdown_tick_def Let_def split: option.splits prod.splits)

lemma handleError_frame [simp]:
  "originalText (handleError e c) = originalText c"
  "translatedText (handleError e c) = translatedText c"
  "isTranslating (handleError e c) = isTranslating c"
  "selectedLanguage (handleError e c) = selectedLanguage c"
  "timeRemaining (handleError e c) = timeRemaining c"
  "countdownInterval (handleError e c) = countdownInterval c"
  "scrollScheduleTimer (handleError e c) = scrollScheduleTimer c"
  "pendingTranslations (handleError e c) = pendingTranslations c"
  "nextSegmentId (handleError e c) = nextSegmentId c"
  "segments (handleError e c) = segments c"
  "interimOriginal (handleError e c) = interimOriginal c"
  "interimTranslated (handleError e c) = interimTranslated c"
  "manualMode (handleError e c) = manualMode c"
  "speechBuffer (handleError e c) = speechBuffer c"
  "speechPauseTimer (handleError e c) = speechPauseTimer c"
  "requests (handleError e c) = requests c"
  "ui_timers (handleError e c) = ui_timers c"
  by (simp_all add: handleError_def Let_def split: option.splits prod.splits)

lemma segment_resolved_frame [simp]:
  "isListening (segment_resolved c) = isListening c"
  "selectedLanguage (segment_resolved c) = selectedLanguage c"
  "errorMessage (segment_resolved c) = errorMessage c"
  "timeRemaining (segment_resolved c) = timeRemaining c"
  "countdownInterval (segment_resolved c) = countdownInterval c"
  "scrollScheduleTimer (segment_resolved c) = scrollScheduleTimer c"
  "nextSegmentId (segment_resolved c) = nextSegmentId c"
  "segments (segment_resolved c) = segments c"
  "interimOriginal (segment_resolved c) = interimOriginal c"
  "interimTranslated (segment_resolved c) = interimTranslated c"
  "manualMode (segment_resolved c) = manualMode c"
  "speechBuffer (segment_resolved c) = speechBuffer c"
  "speechPauseTimer (segment_resolved c) = speechPauseTimer c"
  "requests (segment_resolved c) = requests c"
  "ui_timers (segment_resolved c) = ui_timers c"
  by (simp_all add: segment_resolved_def Let_def split: option.splits prod.splits)

section \<open>Segments, flushes and the display\<close>

lemma findIndex_Some:
  "findIndex p xs = Some k \<Longrightarrow> k < length xs \<and> p (xs ! k) \<and> (\<forall>j<k. \<not> p (xs ! j))"
proof (induction xs arbitrary: k)
  case Nil
  then show ?case by simp
next
  case (Cons x xs)
  show ?case
  proof (cases "p x")
    case True
    with Cons.prems show ?thesis by simp
  next
    case False
    with Cons.prems obtain k' where k': "findIndex p xs = Some k'" "k = Suc k'"
      by auto
    from Cons.IH [OF k'(1)] False k'(2) show ?thesis
      by (auto simp: less_Suc_eq_0_disj)
  qed
qed

lemma findIndex_None: "findIndex p xs = None \<longleftrightarrow> (\<forall>x\<in>set xs. \<not> p x)"
  by (induction xs) auto

lemma updateSegment_originals [simp]:
  "map original (segments (updateSegment i tr tg c)) = map original (segments c)"
  by (auto simp: updateSegment_def map_update list_update_same_conv
           split: option.splits dest!: findIndex_Some)

lemma updateSegment_ids [simp]:
  "map seg_id (segments (updateSegment i tr tg c)) = map seg_id (segments c)"
  by (auto simp: updateSegment_def map_update list_update_same_conv
           split: option.splits dest!: findIndex_Some)

lemma truncateForQuery_piece: "piece_ok m p \<Longrightarrow> truncateForQuery p m = p"
  by (simp add: truncateForQuery_def piece_ok_def trim_trimmed)

lemma appendSegment_frame [simp]:
  "isListening (appendSegment p c) = isListening c"
  "selectedLanguage (appendSegment p c) = selectedLanguage c"
  "timeRemaining (appendSegment p c) = timeRemaining c"
  "countdownInterval (appendSegment p c) = countdownInterval c"
  "scrollScheduleTimer (appendSegment p c) = scrollScheduleTimer c"
  "interimOriginal (appendSegment p c) = interimOriginal c"
  "interimTranslated (appendSegment p c) = interimTranslated c"
  "manualMode (appendSegment p c) = manualMode c"
  "speechBuffer (appendSegment p c) = speechBuffer c"
  "speechPauseTimer (appendSegment p c) = speechPauseTimer c"
  "ui_timers (appendSegment p c) = ui_timers c"
  "nextSegmentId (appendSegment p c) = nextSegmentId c + 1"
  by (simp_all add: appendSegment_def Let_def)

lemma appendSegment_originals [simp]:
  "map original (segments (appendSegment p c))
     = map original (segments c) @ [truncateForQuery p 450]"
  by (simp add: appendSegment_def Let_def)

lemma appendSegment_ids [simp]:
  "map seg_id (segments (appendSegment p c)) = map seg_id (segments c) @ [nextSegmentId c]"
  by (simp add: appendSegment_def Let_def)

lemma appendSegment_requests:
  "map (fst \<circ> snd) (requests (appendSegment p c))
     = map (fst \<circ> snd) (requests c) @ (if selectedLanguage c = [] then [] else [truncateForQuery p 450])"
  by (simp add: appendSegment_def Let_def)

lemma append_all_frame [simp]:
  "isListening (foldl (\<lambda>c' p. appendSegment p c') c ps) = isListening c"
  "selectedLanguage (foldl (\<lambda>c' p. appendSegment p c') c ps) = selectedLanguage c"
  "timeRemaining (foldl (\<lambda>c' p. appendSegment p c') c ps) = timeRemaining c"
  "countdownInterval (foldl (\<lambda>c' p. appendSegment p c') c ps) = countdownInterval c"
  "scrollScheduleTimer (foldl (\<lambda>c' p. appendSegment p c') c ps) = scrollScheduleTimer c"
  "manualMode (foldl (\<lambda>c' p. appendSegment p c') c ps) = manualMode c"
  "speechBuffer (foldl (\<lambda>c' p. appendSegment p c') c ps) = speechBuffer c"
  "speechPauseTimer (foldl (\<lambda>c' p. appendSegment p c') c ps) = speechPauseTimer c"
  "ui_timers (foldl (\<lambda>c' p. appendSegment p c') c ps) = ui_timers c"
  by (induction ps arbitrary: c) simp_all

lemma append_all_originals:
  "map original (segments (foldl (\<lambda>c' p. appendSegment p c') c ps))
     = map original (segments c) @ map (\<lambda>p. truncateForQuery p 450) ps"
  by (induction ps arbitrary: c) simp_all

lemma append_all_ids:
  "map seg_id (segments (foldl (\<lambda>c' p. appendSegment p c') c ps))
     = map seg_id (segments c) @ map (\<lambda>k. nextSegmentId c + k) [0..<length ps]"
proof (induction ps arbitrary: c)
  case Nil
  show ?case by simp
next
  case (Cons p ps)
  have "map (\<lambda>k. nextSegmentId c + k) [0..<Suc (length ps)]
          = nextSegmentId c # map (\<lambda>k. nextSegmentId c + 1 + k) [0..<length ps]"
    by (simp add: upt_rec [of 0] map_Suc_upt [symmetric] del: upt_Suc)
  with Cons [of "appendSegment p c"] show ?case by simp
qed

lemma append_all_requests:
  "map (fst \<circ> snd) (requests (foldl (\<lambda>c' p. appendSegment p c') c ps))
     = map (fst \<circ> snd) (requests c)
       @ (if selectedLanguage c = [] then [] else map (\<lambda>p. truncateForQuery p 450) ps)"
  by (induction ps arbitrary: c) (simp_all add: appendSegment_requests)

lemma map_truncate_pieces:
  "\<forall>p\<in>set ps. piece_ok 450 p \<Longrightarrow> map (\<lambda>p. truncateForQuery p 450) ps = ps"
  by (induction ps) (simp_all add: truncateForQuery_piece)

text \<open>What a flush does to the buffer, the segments and the dispatched requests.\<close>

lemma is_trimmed_Nil [simp]: "is_trimmed []"
  by (simp add: is_trimmed_def)

lemma flushSpeechBuffer_props:
  "\<exists>c' pieces. flushSpeechBuffer force c = Some c'
     \<and> map original (segments c') = map original (segments c) @ pieces
     \<and> map (fst \<circ> snd) (requests c')
         = map (fst \<circ> snd) (requests c) @ (if selectedLanguage c = [] then [] else pieces)
     \<and> (\<forall>p\<in>set pieces. piece_ok 450 p)
     \<and> strip_ws (concat pieces @ speechBuffer c') = strip_ws (speechBuffer c)
     \<and> (force \<longrightarrow> trim (speechBuffer c') = [])
     \<and> (is_trimmed (speechBuffer c) \<longrightarrow> is_trimmed (speechBuffer c'))
     \<and> manualMode c' = manualMode c \<and> selectedLanguage c' = selectedLanguage c
     \<and> ui_timers c' = ui_timers c \<and> speechPauseTimer c' = speechPauseTimer c
     \<and> scrollScheduleTimer c' = scrollScheduleTimer c
     \<and> countdownInterval c' = countdownInterval c \<and> isListening c' = isListening c"
proof (cases "trim (speechBuffer c) = []")
  case True
  then show ?thesis
    by (intro exI [of _ "rebuildDisplayStrings (c\<lparr>interimOriginal := [], interimTranslated := []\<rparr>)"]
              exI [of _ "[]"])
       (simp add: flushSpeechBuffer_def)
next
  case False
  let ?input = "trim (speechBuffer c)"
  let ?ex = "extractCompletedSentences ?input"
  let ?rest = "trim (remainder ?ex)"
  let ?to = "if force then completed ?ex @ (if ?rest \<noteq> [] then [?rest] else []) else completed ?ex"
  let ?buf = "if force then [] else ?rest"
  have ex: "strip_ws (concat (completed ?ex) @ remainder ?ex) = strip_ws (speechBuffer c)"
    using extract_props [of ?input] by simp
  have to: "strip_ws (concat ?to @ ?buf) = strip_ws (speechBuffer c)"
    using ex by (auto simp: strip_ws_trim [of "remainder ?ex", symmetric] simp del: strip_ws_trim)
  obtain pieces where pieces: "packIntoChunks ?to 450 = Some pieces"
      "\<forall>p\<in>set pieces. piece_ok 450 p" "strip_ws (concat pieces) = strip_ws (concat ?to)"
    using packIntoChunks_props [of 450 ?to] by auto
  let ?ps = "if ?to \<noteq> [] then pieces else []"
  let ?c1 = "foldl (\<lambda>c' p. appendSegment p c') c ?ps"
  let ?c' = "rebuildDisplayStrings (?c1\<lparr>speechBuffer := ?buf, interimOriginal := ?buf, interimTranslated := []\<rparr>)"
  have run: "flushSpeechBuffer force c = Some ?c'"
    using False pieces(1) by (simp add: flushSpeechBuffer_def Let_def)
  have ok: "\<forall>p\<in>set ?ps. piece_ok 450 p" using pieces(2) by simp
  have keep: "strip_ws (concat ?ps) = strip_ws (concat ?to)" using pieces(3) by simp
  have "strip_ws (concat ?ps @ speechBuffer ?c') = strip_ws (concat ?to @ ?buf)"
    using keep by simp
  with to have content: "strip_ws (concat ?ps @ speechBuffer ?c') = strip_ws (speechBuffer c)"
    by simp
  have segs: "map original (segments ?c') = map original (segments c) @ ?ps"
    using ok by (simp add: append_all_originals map_truncate_pieces)
  have reqs: "map (fst \<circ> snd) (requests ?c')
         = map (fst \<circ> snd) (requests c) @ (if selectedLanguage c = [] then [] else ?ps)"
    using ok by (simp add: append_all_requests map_truncate_pieces)
  have forced: "force \<longrightarrow> trim (speechBuffer ?c') = []" by simp
  have trimmed: "is_trimmed (speechBuffer ?c')" by simp
  have frame: "manualMode ?c' = manualMode c \<and> selectedLanguage ?c' = selectedLanguage c
     \<and> ui_timers ?c' = ui_timers c \<and> speechPauseTimer ?c' = speechPauseTimer c
     \<and> scrollScheduleTimer ?c' = scrollScheduleTimer c
     \<and> countdownInterval ?c' = countdownInterval c \<and> isListening ?c' = isListening c"
    by simp
  show ?thesis
    using run segs reqs ok content forced trimmed frame
    by (intro exI [of _ ?c'] exI [of _ ?ps]) (simp only: simp_thms)
qed









section \<open>No text is lost or repeated between fragments and chunks\<close>

lemma strip_ws_joinWithSpace [simp]:
  "strip_ws (joinWithSpace a b) = strip_ws a @ strip_ws b"
proof -
  have "trim a = [] \<Longrightarrow> strip_ws a = []" "trim b = [] \<Longrightarrow> strip_ws b = []"
    by (metis strip_ws_trim strip_ws_Nil)+
  then show ?thesis by (auto simp: joinWithSpace_def Let_def)
qed

lemma is_trimmed_joinWithSpace [simp]: "is_trimmed (joinWithSpace a b)"
  using is_trimmed_join [of "trim a" "trim b"] by (auto simp: joinWithSpace_def Let_def)

lemma on_translate_response_frame [simp]:
  "map original (segments (on_translate_response i r c)) = map original (segments c)"
  "map seg_id (segments (on_translate_response i r c)) = map seg_id (segments c)"
  "manualMode (on_translate_response i r c) = manualMode c"
  "selectedLanguage (on_translate_response i r c) = selectedLanguage c"
  "speechBuffer (on_translate_response i r c) = speechBuffer c"
  "requests (on_translate_response i r c) = requests c"
  "ui_timers (on_translate_response i r c) = ui_timers c"
  "speechPauseTimer (on_translate_response i r c) = speechPauseTimer c"
  "scrollScheduleTimer (on_translate_response i r c) = scrollScheduleTimer c"
  "countdownInterval (on_translate_response i r c) = countdownInterval c"
  "nextSegmentId (on_translate_response i r c) = nextSegmentId c"
  by (cases r; simp split: option.splits)+









section \<open>Display order is creation order\<close>

lemma updateSegment_segments:
  assumes "distinct (map seg_id (segments c))"
  shows "segments (updateSegment i tr tg c)
           = map (\<lambda>s. if seg_id s = i then s\<lparr>translated := tr, translating := tg\<rparr> else s)
               (segments c)"
proof (cases "findIndex (\<lambda>s. seg_id s = i) (segments c)")
  case None
  then have "\<forall>s\<in>set (segments c). seg_id s \<noteq> i" by (simp add: findIndex_None)
  then have "map (\<lambda>s. if seg_id s = i then s\<lparr>translated := tr, translating := tg\<rparr> else s)
               (segments c) = segments c"
    by (intro map_idI) simp
  with None show ?thesis by (simp add: updateSegment_def)
next
  case (Some k)
  let ?xs = "segments c"
  from findIndex_Some [OF Some] have k: "k < length ?xs" "seg_id (?xs ! k) = i" by auto
  have only: "seg_id (?xs ! j) = i \<longleftrightarrow> j = k" if "j < length ?xs" for j
  proof
    assume "seg_id (?xs ! j) = i"
    moreover from assms
    have "\<forall>a<length ?xs. \<forall>b<length ?xs. a \<noteq> b \<longrightarrow> seg_id (?xs ! a) \<noteq> seg_id (?xs ! b)"
      by (simp add: distinct_conv_nth)
    ultimately show "j = k" using k that by metis
  next
    assume "j = k"
    with k show "seg_id (?xs ! j) = i" by simp
  qed
  have "?xs[k := (?xs ! k)\<lparr>translated := tr, translating := tg\<rparr>]
          = map (\<lambda>s. if seg_id s = i then s\<lparr>translated := tr, translating := tg\<rparr> else s) ?xs"
    by (rule nth_equalityI) (auto simp: nth_list_update only)
  with Some show ?thesis by (simp add: updateSegment_def)
qed

lemma on_translate_response_segments:
  assumes "distinct (map seg_id (segments c))"
  shows "segments (on_translate_response i r c) = map (resolve [(i, r)]) (segments c)"
proof -
  have "segments (on_translate_response i r c)
          = segments (updateSegment i (response_text r) False c)"
    by (cases r) (auto simp: response_text_def split: option.splits)
  also have "\<dots> = map (resolve [(i, r)]) (segments c)"
    unfolding updateSegment_segments [OF assms]
    by (rule map_cong) (auto simp: resolve_def)
  finally show ?thesis .
qed

lemma on_translate_response_display:
  assumes "\<not> manualMode c"
  shows "translatedText (on_translate_response i r c)
           = join_lines (map rendered (segments (on_translate_response i r c))
                         @ (if interimTranslated c \<noteq> [] then [interimTranslated c] else []))"
    and "interimTranslated (on_translate_response i r c) = interimTranslated c"
  using assms
  by (cases r; simp add: segment_resolved_def rebuildDisplayStrings_def Let_def
        split: option.splits)+

lemma resolve_ids [simp]: "seg_id (resolve rs s) = seg_id s"
  by (simp add: resolve_def split: option.splits)

lemma resolve_Cons:
  assumes "i \<notin> fst ` set rs"
  shows "resolve rs (resolve [(i, r)] s) = resolve ((i, r) # rs) s"
proof (cases "seg_id s = i")
  case True
  from assms have "map_of rs i = None" by (simp add: map_of_eq_None_iff)
  with True show ?thesis by (simp add: resolve_def)
next
  case False
  then show ?thesis by (simp add: resolve_def)
qed

lemma resolve_all_segments:
  assumes "distinct (map seg_id (segments c))" "distinct (map fst rs)"
  shows "segments (resolve_all rs c) = map (resolve rs) (segments c)"
  using assms
proof (induction rs arbitrary: c)
  case Nil
  show ?case by (simp add: resolve_all_def resolve_def)
next
  case (Cons ir rs)
  obtain i r where ir: "ir = (i, r)" by (cases ir)
  let ?c1 = "on_translate_response i r c"
  have s1: "segments ?c1 = map (resolve [(i, r)]) (segments c)"
    by (rule on_translate_response_segments [OF Cons.prems(1)])
  then have d1: "distinct (map seg_id (segments ?c1))"
    using Cons.prems(1) by (simp add: comp_def)
  have fresh: "i \<notin> fst ` set rs" using Cons.prems(2) ir by simp
  have "segments (resolve_all rs ?c1) = map (resolve rs) (segments ?c1)"
    by (rule Cons.IH [OF d1]) (use Cons.prems(2) in simp)
  also have "\<dots> = map (resolve ((i, r) # rs)) (segments c)"
    by (simp add: s1 resolve_Cons [OF fresh])
  finally show ?case by (simp add: resolve_all_def ir)
qed

lemma resolve_all_frame [simp]:
  "map seg_id (segments (resolve_all rs c)) = map seg_id (segments c)"
  "map original (segments (resolve_all rs c)) = map original (segments c)"
  "manualMode (resolve_all rs c) = manualMode c"
  "interimTranslated (resolve_all rs c) = interimTranslated c"
proof (induction rs arbitrary: c)
  case Nil
  {
    case 1 show ?case by (simp add: resolve_all_def)
  next
    case 2 show ?case by (simp add: resolve_all_def)
  next
    case 3 show ?case by (simp add: resolve_all_def)
  next
    case 4 show ?case by (simp add: resolve_all_def)
  }
next
  case (Cons ir rs)
  {
    case 1 show ?case using Cons(1) [of "on_translate_response (fst ir) (snd ir) c"]
      by (simp add: resolve_all_def case_prod_unfold)
  next
    case 2 show ?case using Cons(2) [of "on_translate_response (fst ir) (snd ir) c"]
      by (simp add: resolve_all_def case_prod_unfold)
  next
    case 3 show ?case using Cons(3) [of "on_translate_response (fst ir) (snd ir) c"]
      by (simp add: resolve_all_def case_prod_unfold)
  next
    case 4 show ?case using Cons(4) [of "on_translate_response (fst ir) (snd ir) c"]
      by (cases "snd ir")
         (simp_all add: resolve_all_def case_prod_unfold segment_resolved_def
            rebuildDisplayStrings_def Let_def split: option.splits)
  }
qed

lemma rendered_resolve: "rendered (resolve rs s) = resolved_text rs s"
  by (auto simp: resolve_def resolved_text_def rendered_def split: option.splits)

lemma resolve_all_display:
  assumes "\<not> manualMode c" "distinct (map seg_id (segments c))" "distinct (map fst rs)"
    and "rs \<noteq> []"
  shows "translatedText (resolve_all rs c)
           = join_lines (map (resolved_text rs) (segments c)
                         @ (if interimTranslated c \<noteq> [] then [interimTranslated c] else []))"
proof -
  obtain rs' i r where rs: "rs = rs' @ [(i, r)]"
    using assms(4) by (metis rev_exhaust surj_pair)
  let ?c1 = "resolve_all rs' c"
  have last: "resolve_all rs c = on_translate_response i r ?c1"
    by (simp add: rs resolve_all_def)
  have "translatedText (resolve_all rs c)
          = join_lines (map rendered (segments (resolve_all rs c))
                        @ (if interimTranslated ?c1 \<noteq> [] then [interimTranslated ?c1] else []))"
    unfolding last by (rule on_translate_response_display) (simp add: assms(1))
  also have "segments (resolve_all rs c) = map (resolve rs) (segments c)"
    by (rule resolve_all_segments [OF assms(2,3)])
  finally show ?thesis by (simp add: rendered_resolve comp_def)
qed

lemma ids_ok_cong:
  assumes "ids_ok c" "map seg_id (segments c') = map seg_id (segments c)"
    and "nextSegmentId c' = nextSegmentId c"
  shows "ids_ok c'"
  using assms unfolding ids_ok_def by simp

lemma ids_ok_reset:
  assumes "segments c' = []"
  shows "ids_ok c'"
  using assms by (simp add: ids_ok_def)

lemma ids_ok_append: "ids_ok c \<Longrightarrow> ids_ok (appendSegment p c)"
  unfolding ids_ok_def by (simp only: appendSegment_ids appendSegment_frame) auto

lemma ids_ok_append_all: "ids_ok c \<Longrightarrow> ids_ok (foldl (\<lambda>c' p. appendSegment p c') c ps)"
  by (induction ps arbitrary: c) (simp_all add: ids_ok_append)

lemma flushSpeechBuffer_shape:
  "\<exists>ps b. flushSpeechBuffer force c
     = Some (rebuildDisplayStrings
               ((foldl (\<lambda>c' p. appendSegment p c') c ps)
                  \<lparr>speechBuffer := b, interimOriginal := (if trim (speechBuffer c) = [] then [] else b),
                    interimTranslated := []\<rparr>))"
proof (cases "trim (speechBuffer c) = []")
  case True
  have "flushSpeechBuffer force c
          = Some (rebuildDisplayStrings
                    ((foldl (\<lambda>c' p. appendSegment p c') c [])
                       \<lparr>speechBuffer := speechBuffer c, interimOriginal := [],
                         interimTranslated := []\<rparr>))"
    using True by (simp add: flushSpeechBuffer_def)
  then show ?thesis using True
    by (intro exI [of _ "[]::jsstring list"] exI [of _ "speechBuffer c"]) (simp only: if_True simp_thms)
next
  case False
  let ?ex = "extractCompletedSentences (trim (speechBuffer c))"
  let ?rest = "trim (remainder ?ex)"
  let ?to = "if force then completed ?ex @ (if ?rest \<noteq> [] then [?rest] else []) else completed ?ex"
  obtain pieces where pieces: "packIntoChunks ?to 450 = Some pieces"
    using packIntoChunks_props [of 450 ?to] by auto
  have "flushSpeechBuffer force c
     = Some (rebuildDisplayStrings
               ((foldl (\<lambda>c' p. appendSegment p c') c (if ?to \<noteq> [] then pieces else []))
                  \<lparr>speechBuffer := (if force then [] else ?rest),
                    interimOriginal := (if force then [] else ?rest),
                    interimTranslated := []\<rparr>))"
    using False pieces by (simp add: flushSpeechBuffer_def Let_def)
  then show ?thesis using False
    by (intro exI [of _ "if ?to \<noteq> [] then pieces else []"]
              exI [of _ "if force then [] else ?rest"]) (simp only: if_False simp_thms)
qed

lemma ids_ok_flush:
  assumes "ids_ok c"
  shows "\<exists>c'. flushSpeechBuffer force c = Some c' \<and> ids_ok c'"
proof -
  obtain ps b where f: "flushSpeechBuffer force c
     = Some (rebuildDisplayStrings
               ((foldl (\<lambda>c' p. appendSegment p c') c ps)
                  \<lparr>speechBuffer := b, interimOriginal := (if trim (speechBuffer c) = [] then [] else b),
                    interimTranslated := []\<rparr>))"
    using flushSpeechBuffer_shape by blast
  have "ids_ok (rebuildDisplayStrings
               ((foldl (\<lambda>c' p. appendSegment p c') c ps)
                  \<lparr>speechBuffer := b, interimOriginal := (if trim (speechBuffer c) = [] then [] else b),
                    interimTranslated := []\<rparr>))"
    by (rule ids_ok_cong [OF ids_ok_append_all [OF assms, of ps]]) simp_all
  with f show ?thesis by simp
qed

lemma ids_ok_step:
  assumes "ids_ok c"
  shows "\<exists>c'. ui_step e c = Some c' \<and> ids_ok c'"
proof (cases e)
  case (Transcript t isFinal)
  let ?c1 = "if manualMode c
             then clearSpeechPauseTimer
                    (c\<lparr>manualMode := False, segments := [], interimOriginal := [],
                       interimTranslated := [], speechBuffer := []\<rparr>)
             else c"
  let ?c3 = "resetSpeechPauseTimer (resetCountdownToFull ?c1)"
  have "ids_ok ?c1" using assms by (auto intro: ids_ok_reset)
  then have c3: "ids_ok ?c3" by (rule ids_ok_cong) simp_all
  show ?thesis
  proof (cases "isFinal \<and> trim t \<noteq> []")
    case True
    have "ids_ok (?c3\<lparr>speechBuffer := joinWithSpace (speechBuffer ?c3) (trim t)\<rparr>)"
      by (rule ids_ok_cong [OF c3]) simp_all
    from ids_ok_flush [OF this, of False] True Transcript
    show ?thesis by (simp add: on_transcript_def Let_def)
  next
    case False
    have "ids_ok (rebuildDisplayStrings
                    (?c3\<lparr>interimOriginal := joinWithSpace (speechBuffer ?c3) (trim t),
                         interimTranslated := []\<rparr>))"
      by (rule ids_ok_cong [OF c3]) simp_all
    with c3 False Transcript show ?thesis by (auto simp: on_transcript_def Let_def)
  qed
next
  case (ListeningChanged b)
  let ?c1 = "c\<lparr>isListening := b\<rparr>"
  have c1: "ids_ok ?c1" by (rule ids_ok_cong [OF assms]) simp_all
  have "ids_ok (clearSpeechPauseTimer ?c1)" by (rule ids_ok_cong [OF assms]) simp_all
  from ids_ok_flush [OF this, of True]
  obtain c' where c': "flushSpeechBuffer True (clearSpeechPauseTimer ?c1) = Some c'" "ids_ok c'"
    by blast
  have "ids_ok (stopCountdownTimer c')" by (rule ids_ok_cong [OF c'(2)]) simp_all
  moreover have "ids_ok (startCountdownTimer ?c1)" by (rule ids_ok_cong [OF assms]) simp_all
  ultimately show ?thesis using ListeningChanged c1 c'(1)
    by (auto simp: on_listening_def Let_def)
next
  case (ErrorEvent x)
  have "ids_ok (handleError x c)" by (rule ids_ok_cong [OF assms]) simp_all
  with ErrorEvent show ?thesis by simp
next
  case (TranslateResponse i r)
  have "ids_ok (on_translate_response i r c)" by (rule ids_ok_cong [OF assms]) simp_all
  with TranslateResponse show ?thesis by simp
next
  case DisplayChanged
  have "ids_ok (scheduleAutoScrollToLatest c)" by (rule ids_ok_cong [OF assms]) simp_all
  with DisplayChanged show ?thesis by simp
next
  case (UiTimerFires h)
  have "ids_ok (c\<lparr>ui_timers := remove_timer h (ui_timers c)\<rparr>)"
    by (rule ids_ok_cong [OF assms]) simp_all
  from ids_ok_flush [OF this, of True]
  obtain c' where c': "flushSpeechBuffer True (c\<lparr>ui_timers := remove_timer h (ui_timers c)\<rparr>) = Some c'"
    "ids_ok c'" by blast
  have "ids_ok (c\<lparr>ui_timers := remove_timer h (ui_timers c), scrollScheduleTimer := None\<rparr>)"
    by (rule ids_ok_cong [OF assms]) simp_all
  moreover have "ids_ok (countdown_tick c)" by (rule ids_ok_cong [OF assms]) simp_all
  ultimately show ?thesis using UiTimerFires c' assms
    by (auto simp: ui_timer_fires_def split: option.splits timer_kind.splits)
next
  case ClearText
  have "ids_ok (clearText c)" by (rule ids_ok_reset) (simp add: clearText_def)
  with ClearText show ?thesis by simp
next
  case (TextChange t)
  have "ids_ok (onTextChange t c)" by (rule ids_ok_reset) (simp add: onTextChange_def Let_def)
  with TextChange show ?thesis by simp
next
  case Destroy
  have "ids_ok (ngOnDestroy c)"
    by (rule ids_ok_cong [OF assms]) (simp_all add: ngOnDestroy_def)
  with Destroy show ?thesis by simp
qed

lemma ids_ok_run:
  assumes "ids_ok c"
  shows "\<exists>c'. ui_run evs c = Some c' \<and> ids_ok c'"
  using assms
proof (induction evs arbitrary: c)
  case Nil
  then show ?case by simp
next
  case (Cons e evs)
  obtain c1 where "ui_step e c = Some c1" "ids_ok c1"
    using ids_ok_step [OF Cons.prems] by blast
  with Cons.IH [of c1] show ?case by simp
qed

lemma ids_ok_reachable:
  assumes "ui_run evs (component_init lang) = Some c"
  shows "ids_ok c"
proof -
  have "ids_ok (component_init lang)" by (simp add: ids_ok_def component_init_def)
  from ids_ok_run [OF this, of evs] assms show ?thesis by simp
qed

lemma appendSegment_segments:
  assumes "selectedLanguage c \<noteq> []"
  shows "segments (appendSegment p c)
           = segments c @ [\<lparr>seg_id = nextSegmentId c, original = truncateForQuery p 450,
                             translated = [], translating = True\<rparr>]"
  using assms by (simp add: appendSegment_def Let_def)

lemma three_segments_resolved:
  fixes A B C :: jsstring and c :: component
  assumes "ids_ok c" "\<not> manualMode c" "selectedLanguage c \<noteq> []"
  defines "a \<equiv> nextSegmentId c"
  defines "c3 \<equiv> appendSegment C (appendSegment B (appendSegment A c))"
  shows "translatedText
           (on_translate_response (a + 1) rB
              (on_translate_response a rA (on_translate_response (a + 2) rC c3)))
         = join_lines (map rendered (segments c)
                       @ [response_text rA, response_text rB, response_text rC]
                       @ (if interimTranslated c \<noteq> [] then [interimTranslated c] else []))"
proof -
  let ?rs = "[(a + 2, rC), (a, rA), (a + 1, rB)]"
  let ?new = "[\<lparr>seg_id = a, original = truncateForQuery A 450, translated = [], translating = True\<rparr>,
               \<lparr>seg_id = a + 1, original = truncateForQuery B 450, translated = [], translating = True\<rparr>,
               \<lparr>seg_id = a + 2, original = truncateForQuery C 450, translated = [], translating = True\<rparr>]"
  have segs: "segments c3 = segments c @ ?new"
    using assms(3) by (simp add: c3_def a_def appendSegment_segments)
  have "ids_ok c3" unfolding c3_def by (intro ids_ok_append assms(1))
  then have d: "distinct (map seg_id (segments c3))" by (simp add: ids_ok_def)
  have nm: "\<not> manualMode c3" using assms(2) by (simp add: c3_def)
  have old: "resolved_text ?rs s = rendered s" if "s \<in> set (segments c)" for s
  proof -
    from that assms(1) have "seg_id s < a" by (simp add: ids_ok_def a_def)
    then show ?thesis by (simp add: resolved_text_def)
  qed
  have "translatedText (resolve_all ?rs c3)
          = join_lines (map (resolved_text ?rs) (segments c3)
                        @ (if interimTranslated c3 \<noteq> [] then [interimTranslated c3] else []))"
    by (rule resolve_all_display [OF nm d]) simp_all
  moreover have "map (resolved_text ?rs) (segments c3)
                   = map rendered (segments c) @ [response_text rA, response_text rB, response_text rC]"
    using old by (simp add: segs resolved_text_def)
  moreover have "interimTranslated c3 = interimTranslated c" by (simp add: c3_def)
  ultimately show ?thesis by (simp add: resolve_all_def)
qed

text \<open>
  Claim C2. In every state the component reaches in speech mode with a source
  language selected: when three segments are appended in the order A, B, C and their
  translate responses arrive in the order C, A, B, the rendered translated text lists,
  after the lines of the earlier segments, the results of A, B and C in creation order.
  For responses arriving in any order (one per segment id), the rendered text is the
  segments' lines in list order, each resolved segment showing its own result. No
  response changes the sequence of segment ids or originals, and a new segment is added
  at the end.
\<close>

theorem display_order_is_creation_order:
  assumes "ui_run evs (component_init lang) = Some c" "\<not> manualMode c"
    and "selectedLanguage c \<noteq> []"
  shows "translatedText
           (on_translate_response (nextSegmentId c + 1) rB
              (on_translate_response (nextSegmentId c) rA
                 (on_translate_response (nextSegmentId c + 2) rC
                    (appendSegment C (appendSegment B (appendSegment A c))))))
         = join_lines (map rendered (segments c)
                       @ [response_text rA, response_text rB, response_text rC]
                       @ (if interimTranslated c \<noteq> [] then [interimTranslated c] else []))
    \<and> map seg_id (segments (appendSegment C (appendSegment B (appendSegment A c))))
         = map seg_id (segments c) @ [nextSegmentId c, nextSegmentId c + 1, nextSegmentId c + 2]
    \<and> (distinct (map fst rs) \<and> rs \<noteq> [] \<longrightarrow>
         translatedText (resolve_all rs c)
           = join_lines (map (resolved_text rs) (segments c)
                         @ (if interimTranslated c \<noteq> [] then [interimTranslated c] else [])))
    \<and> map seg_id (segments (resolve_all rs c)) = map seg_id (segments c)
    \<and> map original (segments (resolve_all rs c)) = map original (segments c)"
proof -
  have ok: "ids_ok c" by (rule ids_ok_reachable [OF assms(1)])
  then have d: "distinct (map seg_id (segments c))" by (simp add: ids_ok_def)
  have 1: "translatedText
           (on_translate_response (nextSegmentId c + 1) rB
              (on_translate_response (nextSegmentId c) rA
                 (on_translate_response (nextSegmentId c + 2) rC
                    (appendSegment C (appendSegment B (appendSegment A c))))))
         = join_lines (map rendered (segments c)
                       @ [response_text rA, response_text rB, response_text rC]
                       @ (if interimTranslated c \<noteq> [] then [interimTranslated c] else []))"
    by (rule three_segments_resolved [OF ok assms(2,3)])
  have 2: "map seg_id (segments (appendSegment C (appendSegment B (appendSegment A c))))
         = map seg_id (segments c) @ [nextSegmentId c, nextSegmentId c + 1, nextSegmentId c + 2]"
    by (simp only: appendSegment_ids appendSegment_frame) simp
  have 3: "distinct (map fst rs) \<and> rs \<noteq> [] \<longrightarrow>
         translatedText (resolve_all rs c)
           = join_lines (map (resolved_text rs) (segments c)
                         @ (if interimTranslated c \<noteq> [] then [interimTranslated c] else []))"
    using resolve_all_display [OF assms(2) d, of rs] by blast
  have 4: "map seg_id (segments (resolve_all rs c)) = map seg_id (segments c)"
    and 5: "map original (segments (resolve_all rs c)) = map original (segments c)"
    by (rule resolve_all_frame)+
  from 1 2 3 4 5 show ?thesis by blast
qed

theorem display_order_is_creation_order_witness:
  "ui_run [] (component_init ''fr'') = Some (component_init ''fr'')
   \<and> \<not> manualMode (component_init ''fr'')
   \<and> selectedLanguage (component_init ''fr'') \<noteq> []
   \<and> nextSegmentId (component_init ''fr'') = 1
   \<and> translatedText
        (on_translate_response (1 + 1) (Next None (Some (js ''b'')))
           (on_translate_response 1 (Next None (Some (js ''a'')))
              (on_translate_response (1 + 2) (Next None (Some (js ''c'')))
                 (appendSegment (js ''C.'') (appendSegment (js ''B.'')
                    (appendSegment (js ''A.'') (component_init ''fr'')))))))
      = join_lines [js ''a'', js ''b'', js ''c'']"
proof -
  have r: "ui_run [] (component_init ''fr'') = Some (component_init ''fr'')" by simp
  have m: "\<not> manualMode (component_init ''fr'')"
    and l: "selectedLanguage (component_init ''fr'') \<noteq> []"
    by (simp_all add: component_init_def)
  have i: "nextSegmentId (component_init ''fr'') = 1" "segments (component_init ''fr'') = []"
    "interimTranslated (component_init ''fr'') = []"
    by (simp_all add: component_init_def)
  have t: "response_text (Next None (Some x)) = x" for x
    by (simp add: response_text_def)
  note main = display_order_is_creation_order [OF r m l,
      of "Next None (Some (js ''b''))" "Next None (Some (js ''a''))" "Next None (Some (js ''c''))"
         "js ''C.''" "js ''B.''" "js ''A.''", THEN conjunct1]
  have "translatedText
        (on_translate_response (1 + 1) (Next None (Some (js ''b'')))
           (on_translate_response 1 (Next None (Some (js ''a'')))
              (on_translate_response (1 + 2) (Next None (Some (js ''c'')))
                 (appendSegment (js ''C.'') (appendSegment (js ''B.'')
                    (appendSegment (js ''A.'') (component_init ''fr'')))))))
      = join_lines [js ''a'', js ''b'', js ''c'']"
    using main unfolding i t by (simp only: list.map append_Nil append_Nil2 if_False simp_thms append_Cons)
  with r m l i(1) show ?thesis by blast
qed

section \<open>At most one outstanding timer of each kind\<close>

lemma table_ok_at_most_one:
  assumes "table_ok field tab"
  shows "length (timers_of k tab) \<le> 1"
proof (rule ccontr)
  assume "\<not> length (timers_of k tab) \<le> 1"
  then obtain x y zs where xy: "timers_of k tab = x # y # zs"
    by (cases "timers_of k tab"; cases "tl (timers_of k tab)") auto
  have sub: "set (timers_of k tab) \<subseteq> set (pending tab)" by (auto simp: timers_of_def)
  have kind: "\<forall>t\<in>set (timers_of k tab). fst (snd t) = k" by (simp add: timers_of_def)
  from assms sub kind have "\<forall>t\<in>set (timers_of k tab). field k = Some (fst t)"
    unfolding table_ok_def by (metis subsetD)
  with xy have same: "fst x = fst y" by (metis list.set_intros(1,2) option.inject)
  from assms have "distinct (map fst (timers_of k tab))"
    by (simp add: table_ok_def timers_of_def distinct_map_filter)
  with xy same show False by simp
qed

lemma table_ok_clear:
  assumes "table_ok field tab"
  shows "table_ok field (clearTimeout h tab)"
  using assms by (auto simp: table_ok_def clearTimeout_def distinct_map_filter)

lemma table_ok_remove:
  assumes "table_ok field tab"
  shows "table_ok field (remove_timer h tab)"
  using assms by (auto simp: table_ok_def remove_timer_def distinct_map_filter)

lemma table_ok_forget:
  assumes "table_ok field tab" "field k = Some h"
  shows "table_ok (field(k := None)) (clearTimeout h tab)"
    and "table_ok (field(k := None)) (remove_timer h tab)"
  using assms by (auto simp: table_ok_def clearTimeout_def remove_timer_def distinct_map_filter)

lemma table_ok_none_of_kind:
  assumes "table_ok field tab" "field k = None \<or> field k = Some 0"
  shows "timers_of k tab = []"
  using assms by (auto simp: table_ok_def timers_of_def filter_empty_conv)

lemma table_ok_cleared_kind:
  assumes "table_ok field tab" "field k = Some h"
  shows "timers_of k (clearTimeout h tab) = []"
  using assms by (auto simp: table_ok_def timers_of_def clearTimeout_def filter_empty_conv)

lemma table_ok_arm:
  assumes "table_ok field tab" "timers_of k tab = []"
  shows "table_ok (field(k := Some (fst (setTimeout k d tab)))) (snd (setTimeout k d tab))"
    and "timers_of k (snd (setTimeout k d tab)) = [(Suc (last_handle tab), k, d)]"
proof -
  from assms(2) have none: "\<forall>t\<in>set (pending tab). fst (snd t) \<noteq> k"
    by (auto simp: timers_of_def filter_empty_conv)
  have fresh: "\<forall>t\<in>set (pending tab). fst t \<noteq> Suc (last_handle tab)"
    using assms(1) by (auto simp: table_ok_def)
  show "table_ok (field(k := Some (fst (setTimeout k d tab)))) (snd (setTimeout k d tab))"
    using assms(1) none fresh
    by (auto simp: table_ok_def setTimeout_def Let_def le_Suc_eq)
  show "timers_of k (snd (setTimeout k d tab)) = [(Suc (last_handle tab), k, d)]"
    using assms(2) by (simp add: timers_of_def setTimeout_def Let_def)
qed

lemma table_ok_fields:
  assumes "table_ok field tab" "tab' = tab" "\<And>k. field' k = field k"
  shows "table_ok field' tab'"
  using assms by (simp add: table_ok_def)

lemma clearListeningTimeout_frame [simp]:
  "recognition (clearListeningTimeout s) = recognition s"
  "recognition_lang (clearListeningTimeout s) = recognition_lang s"
  "transcriptSubject (clearListeningTimeout s) = transcriptSubject s"
  "isListeningSubject (clearListeningTimeout s) = isListeningSubject s"
  "errorSubject (clearListeningTimeout s) = errorSubject s"
  "isManuallyStopped (clearListeningTimeout s) = isManuallyStopped s"
  "shouldBeListening (clearListeningTimeout s) = shouldBeListening s"
  "isRecognizing (clearListeningTimeout s) = isRecognizing s"
  "restartTimeout (clearListeningTimeout s) = restartTimeout s"
  "restartAttempts (clearListeningTimeout s) = restartAttempts s"
  "isMobileDevice (clearListeningTimeout s) = isMobileDevice s"
  "lastNonCriticalError (clearListeningTimeout s) = lastNonCriticalError s"
  "engine_calls (clearListeningTimeout s) = engine_calls s"
  by (simp_all add: clearListeningTimeout_def Let_def split: option.splits prod.splits engine_reply.splits completion.splits)

lemma startListeningTimeout_frame [simp]:
  "recognition (startListeningTimeout s) = recognition s"
  "recognition_lang (startListeningTimeout s) = recognition_lang s"
  "transcriptSubject (startListeningTimeout s) = transcriptSubject s"
  "isListeningSubject (startListeningTimeout s) = isListeningSubject s"
  "errorSubject (startListeningTimeout s) = errorSubject s"
  "isManuallyStopped (startListeningTimeout s) = isManuallyStopped s"
  "shouldBeListening (startListeningTimeout s) = shouldBeListening s"
  "isRecognizing (startListeningTimeout s) = isRecognizing s"
  "restartTimeout (startListeningTimeout s) = restartTimeout s"
  "restartAttempts (startListeningTimeout s) = restartAttempts s"
  "isMobileDevice (startListeningTimeout s) = isMobileDevice s"
  "lastNonCriticalError (startListeningTimeout s) = lastNonCriticalError s"
  "engine_calls (startListeningTimeout s) = engine_calls s"
  by (simp_all add: startListeningTimeout_def clearListeningTimeout_def setTimeout_def Let_def split: option.splits prod.splits engine_reply.splits completion.splits)

lemma clearRestartTimeout_frame [simp]:
  "recognition (clearRestartTimeout s) = recognition s"
  "recognition_lang (clearRestartTimeout s) = recognition_lang s"
  "transcriptSubject (clearRestartTimeout s) = transcriptSubject s"
  "isListeningSubject (clearRestartTimeout s) = isListeningSubject s"
  "errorSubject (clearRestartTimeout s) = errorSubject s"
  "isManuallyStopped (clearRestartTimeout s) = isManuallyStopped s"
  "listeningTimeout (clearRestartTimeout s) = listeningTimeout s"
  "shouldBeListening (clearRestartTimeout s) = shouldBeListening s"
  "isRecognizing (clearRestartTimeout s) = isRecognizing s"
  "restartAttempts (clearRestartTimeout s) = restartAttempts s"
  "isMobileDevice (clearRestartTimeout s) = isMobileDevice s"
  "lastNonCriticalError (clearRestartTimeout s) = lastNonCriticalError s"
  "engine_calls (clearRestartTimeout s) = engine_calls s"
  by (simp_all add: clearRestartTimeout_def Let_def split: option.splits prod.splits engine_reply.splits completion.splits)

lemma scheduleRestart_frame [simp]:
  "recognition (scheduleRestart s) = recognition s"
  "recognition_lang (scheduleRestart s) = recognition_lang s"
  "transcriptSubject (scheduleRestart s) = transcriptSubject s"
  "isListeningSubject (scheduleRestart s) = isListeningSubject s"
  "errorSubject (scheduleRestart s) = errorSubject s"
  "isManuallyStopped (scheduleRestart s) = isManuallyStopped s"
  "listeningTimeout (scheduleRestart s) = listeningTimeout s"
  "shouldBeListening (scheduleRestart s) = shouldBeListening s"
  "isRecognizing (scheduleRestart s) = isRecognizing s"
  "isMobileDevice (scheduleRestart s) = isMobileDevice s"
  "lastNonCriticalError (scheduleRestart s) = lastNonCriticalError s"
  "engine_calls (scheduleRestart s) = engine_calls s"
  by (simp_all add: scheduleRestart_def clearRestartTimeout_def setTimeout_def Let_def split: option.splits prod.splits engine_reply.splits completion.splits)

lemma startRecognitionSafely_frame [simp]:
  "recognition (startRecognitionSafely reply s) = recognition s"
  "recognition_lang (startRecognitionSafely reply s) = recognition_lang s"
  "transcriptSubject (startRecognitionSafely reply s) = transcriptSubject s"
  "isListeningSubject (startRecognitionSafely reply s) = isListeningSubject s"
  "errorSubject (startRecognitionSafely reply s) = errorSubject s"
  "isManuallyStopped (startRecognitionSafely reply s) = isManuallyStopped s"
  "listeningTimeout (startRecognitionSafely reply s) = listeningTimeout s"
  "shouldBeListening (startRecognitionSafely reply s) = shouldBeListening s"
  "isRecognizing (startRecognitionSafely reply s) = isRecognizing s"
  "isMobileDevice (startRecognitionSafely reply s) = isMobileDevice s"
  "lastNonCriticalError (startRecognitionSafely reply s) = lastNonCriticalError s"
  by (simp_all add: startRecognitionSafely_def engine_start_def Let_def split: option.splits prod.splits engine_reply.splits completion.splits)

lemma stopListening_frame [simp]:
  "recognition (stopListening reply s) = recognition s"
  "recognition_lang (stopListening reply s) = recognition_lang s"
  "transcriptSubject (stopListening reply s) = transcriptSubject s"
  "isListeningSubject (stopListening reply s) = isListeningSubject s"
  "errorSubject (stopListening reply s) = errorSubject s"
  "isRecognizing (stopListening reply s) = isRecognizing s"
  "restartAttempts (stopListening reply s) = restartAttempts s"
  "isMobileDevice (stopListening reply s) = isMobileDevice s"
  "lastNonCriticalError (stopListening reply s) = lastNonCriticalError s"
  by (simp_all add: stopListening_def engine_stop_def listening_value_def Let_def split: option.splits prod.splits engine_reply.splits completion.splits)

lemma onstart_frame [simp]:
  "recognition (onstart s) = recognition s"
  "recognition_lang (onstart s) = recognition_lang s"
  "transcriptSubject (onstart s) = transcriptSubject s"
  "errorSubject (onstart s) = errorSubject s"
  "isManuallyStopped (onstart s) = isManuallyStopped s"
  "listeningTimeout (onstart s) = listeningTimeout s"
  "shouldBeListening (onstart s) = shouldBeListening s"
  "restartTimeout (onstart s) = restartTimeout s"
  "isMobileDevice (onstart s) = isMobileDevice s"
  "lastNonCriticalError (onstart s) = lastNonCriticalError s"
  "engine_calls (onstart s) = engine_calls s"
  "svc_timers (onstart s) = svc_timers s"
  by (simp_all add: onstart_def Let_def split: option.splits prod.splits engine_reply.splits completion.splits)

lemma inactivity_callback_frame [simp]:
  "recognition (inactivity_callback reply s) = recognition s"
  "recognition_lang (inactivity_callback reply s) = recognition_lang s"
  "transcriptSubject (inactivity_callback reply s) = transcriptSubject s"
  "isListeningSubject (inactivity_callback reply s) = isListeningSubject s"
  "listeningTimeout (inactivity_callback reply s) = listeningTimeout s"
  "shouldBeListening (inactivity_callback reply s) = shouldBeListening s"
  "isRecognizing (inactivity_callback reply s) = isRecognizing s"
  "restartTimeout (inactivity_callback reply s) = restartTimeout s"
  "restartAttempts (inactivity_callback reply s) = restartAttempts s"
  "isMobileDevice (inactivity_callback reply s) = isMobileDevice s"
  "lastNonCriticalError (inactivity_callback reply s) = lastNonCriticalError s"
  "svc_timers (inactivity_callback reply s) = svc_timers s"
  by (simp_all add: inactivity_callback_def engine_stop_def Let_def split: option.splits prod.splits engine_reply.splits completion.splits)

lemma restart_callback_frame [simp]:
  "recognition (restart_callback reply s) = recognition s"
  "recognition_lang (restart_callback reply s) = recognition_lang s"
  "transcriptSubject (restart_callback reply s) = transcriptSubject s"
  "isListeningSubject (restart_callback reply s) = isListeningSubject s"
  "errorSubject (restart_callback reply s) = errorSubject s"
  "isManuallyStopped (restart_callback reply s) = isManuallyStopped s"
  "listeningTimeout (restart_callback reply s) = listeningTimeout s"
  "shouldBeListening (restart_callback reply s) = shouldBeListening s"
  "isRecognizing (restart_callback reply s) = isRecognizing s"
  "isMobileDevice (restart_callback reply s) = isMobileDevice s"
  by (simp_all add: restart_callback_def Let_def split: option.splits prod.splits engine_reply.splits completion.splits)

lemma clearTimeout_last [simp]: "last_handle (clearTimeout h tab) = last_handle tab"
  by (simp add: clearTimeout_def)

lemma remove_timer_last [simp]: "last_handle (remove_timer h tab) = last_handle tab"
  by (simp add: remove_timer_def)

lemma svc_fields_simps [simp]:
  "svc_fields s InactivityTimer = listeningTimeout s"
  "svc_fields s RestartTimer = restartTimeout s"
  "svc_fields s PauseTimer = None"
  "svc_fields s ScrollTimer = None"
  "svc_fields s CountdownInterval = None"
  by (simp_all add: svc_fields_def)

lemma svc_inv_cong:
  assumes "svc_inv s" "svc_timers s' = svc_timers s" "listeningTimeout s' = listeningTimeout s"
    and "restartTimeout s' = restartTimeout s"
  shows "svc_inv s'"
proof -
  have "svc_fields s' k = svc_fields s k" for k
    using assms(3,4) by (simp add: svc_fields_def split: timer_kind.splits)
  with assms(1,2) show ?thesis by (simp add: svc_inv_def table_ok_def)
qed

lemma svc_inv_clearListeningTimeout:
  assumes "svc_inv s"
  shows "svc_inv (clearListeningTimeout s)"
    and "timers_of InactivityTimer (svc_timers (clearListeningTimeout s)) = []"
    and "last_handle (svc_timers (clearListeningTimeout s)) = last_handle (svc_timers s)"
proof -
  have ok: "table_ok (svc_fields s) (svc_timers s)" using assms by (simp add: svc_inv_def)
  show "last_handle (svc_timers (clearListeningTimeout s)) = last_handle (svc_timers s)"
    by (simp add: clearListeningTimeout_def split: option.splits)
  consider (idle) "listeningTimeout s = None \<or> listeningTimeout s = Some 0"
    | (armed) h where "listeningTimeout s = Some h" "h \<noteq> 0"
    by (cases "listeningTimeout s") auto
  then have "svc_inv (clearListeningTimeout s)
             \<and> timers_of InactivityTimer (svc_timers (clearListeningTimeout s)) = []"
  proof cases
    case idle
    then have same: "clearListeningTimeout s = s"
      by (auto simp: clearListeningTimeout_def)
    from table_ok_none_of_kind [OF ok, of InactivityTimer] idle
    show ?thesis using assms by (simp add: same)
  next
    case armed
    let ?s' = "s\<lparr>svc_timers := clearTimeout h (svc_timers s), listeningTimeout := None\<rparr>"
    have eq: "clearListeningTimeout s = ?s'" using armed by (simp add: clearListeningTimeout_def)
    have "table_ok ((svc_fields s)(InactivityTimer := None)) (clearTimeout h (svc_timers s))"
      by (rule table_ok_forget [OF ok]) (simp add: armed)
    then have "table_ok (svc_fields ?s') (svc_timers ?s')"
      by (rule table_ok_fields) (simp_all add: svc_fields_def split: timer_kind.splits)
    moreover have "timers_of InactivityTimer (clearTimeout h (svc_timers s)) = []"
      by (rule table_ok_cleared_kind [OF ok]) (simp add: armed)
    ultimately show ?thesis by (simp add: eq svc_inv_def)
  qed
  then show "svc_inv (clearListeningTimeout s)"
    and "timers_of InactivityTimer (svc_timers (clearListeningTimeout s)) = []" by simp_all
qed

lemma svc_inv_clearRestartTimeout:
  assumes "svc_inv s"
  shows "svc_inv (clearRestartTimeout s)"
    and "timers_of RestartTimer (svc_timers (clearRestartTimeout s)) = []"
    and "last_handle (svc_timers (clearRestartTimeout s)) = last_handle (svc_timers s)"
proof -
  have ok: "table_ok (svc_fields s) (svc_timers s)" using assms by (simp add: svc_inv_def)
  show "last_handle (svc_timers (clearRestartTimeout s)) = last_handle (svc_timers s)"
    by (simp add: clearRestartTimeout_def split: option.splits)
  consider (idle) "restartTimeout s = None \<or> restartTimeout s = Some 0"
    | (armed) h where "restartTimeout s = Some h" "h \<noteq> 0"
    by (cases "restartTimeout s") auto
  then have "svc_inv (clearRestartTimeout s)
             \<and> timers_of RestartTimer (svc_timers (clearRestartTimeout s)) = []"
  proof cases
    case idle
    then have same: "clearRestartTimeout s = s"
      by (auto simp: clearRestartTimeout_def)
    from table_ok_none_of_kind [OF ok, of RestartTimer] idle
    show ?thesis using assms by (simp add: same)
  next
    case armed
    let ?s' = "s\<lparr>svc_timers := clearTimeout h (svc_timers s), restartTimeout := None\<rparr>"
    have eq: "clearRestartTimeout s = ?s'" using armed by (simp add: clearRestartTimeout_def)
    have "table_ok ((svc_fields s)(RestartTimer := None)) (clearTimeout h (svc_timers s))"
      by (rule table_ok_forget [OF ok]) (simp add: armed)
    then have "table_ok (svc_fields ?s') (svc_timers ?s')"
      by (rule table_ok_fields) (simp_all add: svc_fields_def split: timer_kind.splits)
    moreover have "timers_of RestartTimer (clearTimeout h (svc_timers s)) = []"
      by (rule table_ok_cleared_kind [OF ok]) (simp add: armed)
    ultimately show ?thesis by (simp add: eq svc_inv_def)
  qed
  then show "svc_inv (clearRestartTimeout s)"
    and "timers_of RestartTimer (svc_timers (clearRestartTimeout s)) = []" by simp_all
qed

lemma svc_inv_startListeningTimeout:
  assumes "svc_inv s"
  shows "svc_inv (startListeningTimeout s)"
    and "timers_of InactivityTimer (svc_timers (startListeningTimeout s))
           = [(Suc (last_handle (svc_timers s)), InactivityTimer, listeningDuration)]"
    and "listeningTimeout (startListeningTimeout s) = Some (Suc (last_handle (svc_timers s)))"
proof -
  let ?s1 = "clearListeningTimeout s"
  let ?r = "setTimeout InactivityTimer listeningDuration (svc_timers ?s1)"
  let ?s' = "?s1\<lparr>svc_timers := snd ?r, listeningTimeout := Some (fst ?r)\<rparr>"
  note c = svc_inv_clearListeningTimeout [OF assms]
  have eq: "startListeningTimeout s = ?s'"
    by (simp add: startListeningTimeout_def Let_def case_prod_unfold)
  have ok1: "table_ok (svc_fields ?s1) (svc_timers ?s1)" using c(1) by (simp add: svc_inv_def)
  have "table_ok ((svc_fields ?s1)(InactivityTimer := Some (fst ?r))) (snd ?r)"
    by (rule table_ok_arm(1) [OF ok1 c(2)])
  then have "table_ok (svc_fields ?s') (svc_timers ?s')"
    by (rule table_ok_fields) (simp_all add: svc_fields_def split: timer_kind.splits)
  then show "svc_inv (startListeningTimeout s)" by (simp add: eq svc_inv_def)
  show "timers_of InactivityTimer (svc_timers (startListeningTimeout s))
           = [(Suc (last_handle (svc_timers s)), InactivityTimer, listeningDuration)]"
    using table_ok_arm(2) [OF ok1 c(2), of listeningDuration] by (simp add: eq c(3))
  show "listeningTimeout (startListeningTimeout s) = Some (Suc (last_handle (svc_timers s)))"
    by (simp add: eq c(3) setTimeout_def Let_def)
qed

lemma svc_inv_scheduleRestart:
  assumes "svc_inv s"
  shows "svc_inv (scheduleRestart s)"
    and "timers_of RestartTimer (svc_timers (scheduleRestart s))
           = [(Suc (last_handle (svc_timers s)), RestartTimer, restart_delay s)]"
    and "restartTimeout (scheduleRestart s) = Some (Suc (last_handle (svc_timers s)))"
    and "restartAttempts (scheduleRestart s) = restartAttempts s + 1"
proof -
  let ?s1 = "clearRestartTimeout s"
  let ?r = "setTimeout RestartTimer (restart_delay s) (svc_timers ?s1)"
  let ?s' = "?s1\<lparr>restartAttempts := restartAttempts s + 1, svc_timers := snd ?r,
                 restartTimeout := Some (fst ?r)\<rparr>"
  note c = svc_inv_clearRestartTimeout [OF assms]
  have eq: "scheduleRestart s = ?s'"
    by (simp add: scheduleRestart_def restart_delay_def Let_def case_prod_unfold)
  have ok1: "table_ok (svc_fields ?s1) (svc_timers ?s1)" using c(1) by (simp add: svc_inv_def)
  have "table_ok ((svc_fields ?s1)(RestartTimer := Some (fst ?r))) (snd ?r)"
    by (rule table_ok_arm(1) [OF ok1 c(2)])
  then have "table_ok (svc_fields ?s') (svc_timers ?s')"
    by (rule table_ok_fields) (simp_all add: svc_fields_def split: timer_kind.splits)
  then show "svc_inv (scheduleRestart s)" by (simp add: eq svc_inv_def)
  show "timers_of RestartTimer (svc_timers (scheduleRestart s))
           = [(Suc (last_handle (svc_timers s)), RestartTimer, restart_delay s)]"
    using table_ok_arm(2) [OF ok1 c(2), of "restart_delay s"] by (simp add: eq c(3))
  show "restartTimeout (scheduleRestart s) = Some (Suc (last_handle (svc_timers s)))"
    by (simp add: eq c(3) setTimeout_def Let_def)
  show "restartAttempts (scheduleRestart s) = restartAttempts s + 1"
    by (simp add: eq)
qed

lemma svc_inv_startRecognitionSafely:
  assumes "svc_inv s"
  shows "svc_inv (startRecognitionSafely reply s)"
proof (cases reply)
  case Returns
  have "svc_inv (s\<lparr>engine_calls := engine_calls s @ [EngineStart]\<rparr>)"
    by (rule svc_inv_cong [OF assms]) simp_all
  with assms Returns show ?thesis
    by (simp add: startRecognitionSafely_def engine_start_def)
next
  case (Throws e)
  with assms svc_inv_scheduleRestart(1) [OF assms] show ?thesis
    by (simp add: startRecognitionSafely_def engine_start_def)
qed

lemma svc_inv_stopListening:
  assumes "svc_inv s"
  shows "svc_inv (stopListening reply s)"
proof -
  let ?s0 = "s\<lparr>isManuallyStopped := True, shouldBeListening := False\<rparr>"
  let ?s1 = "clearListeningTimeout (clearRestartTimeout ?s0)"
  have "svc_inv ?s0" by (rule svc_inv_cong [OF assms]) simp_all
  then have s1: "svc_inv ?s1"
    by (intro svc_inv_clearListeningTimeout(1) svc_inv_clearRestartTimeout(1))
  have "svc_inv (?s1\<lparr>engine_calls := engine_calls ?s1 @ [EngineStop]\<rparr>)"
    by (rule svc_inv_cong [OF s1]) simp_all
  with s1 show ?thesis
    by (cases reply) (simp_all add: stopListening_def Let_def engine_stop_def)
qed

lemma svc_inv_onresult:
  assumes "svc_inv s"
  shows "svc_inv (onresult results s)"
proof -
  obtain i f where c: "collect_results results [] [] = (i, f)"
    by (cases "collect_results results [] []")
  let ?s1 = "if trim f \<noteq> [] then s\<lparr>transcriptSubject := transcriptSubject s @ [(trim f, True)]\<rparr> else s"
  let ?s2 = "if trim i \<noteq> [] then ?s1\<lparr>transcriptSubject := transcriptSubject ?s1 @ [(trim i, False)]\<rparr> else ?s1"
  have s2: "svc_inv ?s2" by (rule svc_inv_cong [OF assms]) simp_all
  from svc_inv_startListeningTimeout(1) [OF s2] s2 show ?thesis
    by (simp add: onresult_def c Let_def)
qed

lemma svc_inv_onerror:
  assumes "svc_inv s"
  shows "svc_inv (onerror error reply s)"
proof -
  have 1: "svc_inv (s\<lparr>lastNonCriticalError := x\<rparr>)" for x
    by (rule svc_inv_cong [OF assms]) simp_all
  have 2: "svc_inv (s\<lparr>lastNonCriticalError := x, errorSubject := y\<rparr>)" for x y
    by (rule svc_inv_cong [OF assms]) simp_all
  from 1 2 svc_inv_stopListening [OF 2] show ?thesis
    by (simp add: onerror_def Let_def)
qed

lemma svc_inv_onstart:
  assumes "svc_inv s"
  shows "svc_inv (onstart s)"
  by (rule svc_inv_cong [OF assms]) simp_all

lemma svc_inv_onend:
  assumes "svc_inv s"
  shows "svc_inv (onend s)"
proof -
  let ?s1 = "s\<lparr>isRecognizing := False\<rparr>"
  have s1: "svc_inv ?s1" by (rule svc_inv_cong [OF assms]) simp_all
  have "svc_inv (?s1\<lparr>isListeningSubject := isListeningSubject ?s1 @ [False]\<rparr>)"
    by (rule svc_inv_cong [OF assms]) simp_all
  from svc_inv_clearListeningTimeout(1) [OF this] svc_inv_scheduleRestart(1) [OF s1]
  show ?thesis by (simp add: onend_def Let_def)
qed

lemma svc_inv_timer_fires:
  assumes "svc_inv s"
  shows "svc_inv (svc_timer_fires h reply s)"
proof -
  let ?s1 = "s\<lparr>svc_timers := remove_timer h (svc_timers s)\<rparr>"
  have "table_ok (svc_fields s) (remove_timer h (svc_timers s))"
    using assms by (simp add: svc_inv_def table_ok_remove)
  then have s1: "svc_inv ?s1"
    unfolding svc_inv_def
    by (rule table_ok_fields) (simp_all add: svc_fields_def split: timer_kind.splits)
  have i: "svc_inv (inactivity_callback reply ?s1)"
    by (rule svc_inv_cong [OF s1]) simp_all
  have "svc_inv (?s1\<lparr>lastNonCriticalError := None\<rparr>)"
    by (rule svc_inv_cong [OF s1]) simp_all
  from svc_inv_startRecognitionSafely [OF this] s1
  have r: "svc_inv (restart_callback reply ?s1)"
    by (simp add: restart_callback_def)
  from assms i r show ?thesis
    by (simp add: svc_timer_fires_def split: option.splits timer_kind.splits)
qed

lemma svc_inv_step:
  assumes "svc_inv s"
  shows "\<exists>s'. svc_step e s = Normal s' \<and> svc_inv s'"
proof (cases e)
  case StartListeningCalled
  have "svc_inv (fst (startListening_begin s))"
    by (rule svc_inv_cong [OF assms]) (simp_all add: startListening_begin_def)
  with StartListeningCalled show ?thesis by simp
next
  case (PermissionSettled language mic reply)
  have 1: "svc_inv (s\<lparr>errorSubject := errorSubject s @ [''not-allowed'']\<rparr>)"
    by (rule svc_inv_cong [OF assms]) simp_all
  have "svc_inv (s\<lparr>isManuallyStopped := False, recognition_lang := language\<rparr>)"
    by (rule svc_inv_cong [OF assms]) simp_all
  then have "svc_inv (startListeningTimeout (startRecognitionSafely reply
               (s\<lparr>isManuallyStopped := False, recognition_lang := language\<rparr>)))"
    by (intro svc_inv_startListeningTimeout(1) svc_inv_startRecognitionSafely)
  with 1 assms PermissionSettled show ?thesis
    by (cases mic) (simp_all add: startListening_resume_def requestMicrophonePermission_def)
next
  case (StopListening reply)
  with svc_inv_stopListening [OF assms] show ?thesis by simp
next
  case (OnResult results)
  with svc_inv_onresult [OF assms] assms show ?thesis by simp
next
  case (OnError error reply)
  with svc_inv_onerror [OF assms] assms show ?thesis by simp
next
  case OnStart
  with svc_inv_onstart [OF assms] assms show ?thesis by simp
next
  case OnEnd
  with svc_inv_onend [OF assms] assms show ?thesis by simp
next
  case (SvcTimerFires h reply)
  with svc_inv_timer_fires [OF assms] show ?thesis by simp
qed

lemma svc_inv_run:
  assumes "svc_inv s"
  shows "\<exists>s'. svc_run evs s = Normal s' \<and> svc_inv s'"
  using assms
proof (induction evs arbitrary: s)
  case Nil
  then show ?case by simp
next
  case (Cons e evs)
  obtain s1 where "svc_step e s = Normal s1" "svc_inv s1"
    using svc_inv_step [OF Cons.prems] by blast
  with Cons.IH [of s1] show ?case by simp
qed

lemma svc_inv_init: "svc_inv (service_init mobile supported)"
  by (simp add: svc_inv_def table_ok_def service_init_def)

lemma svc_inv_reachable:
  assumes "svc_run evs (service_init mobile supported) = Normal s"
  shows "svc_inv s"
  using svc_inv_run [OF svc_inv_init, of evs mobile supported] assms by simp

lemma ui_fields_simps [simp]:
  "ui_fields c PauseTimer = speechPauseTimer c"
  "ui_fields c ScrollTimer = scrollScheduleTimer c"
  "ui_fields c CountdownInterval = countdownInterval c"
  "ui_fields c InactivityTimer = None"
  "ui_fields c RestartTimer = None"
  by (simp_all add: ui_fields_def)

lemma find_Some_mem: "find P xs = Some x \<Longrightarrow> x \<in> set xs \<and> P x"
  by (induction xs) (auto split: if_splits)

lemma ui_inv_cong:
  assumes "ui_inv c" "ui_timers c' = ui_timers c" "speechPauseTimer c' = speechPauseTimer c"
    and "scrollScheduleTimer c' = scrollScheduleTimer c"
    and "countdownInterval c' = countdownInterval c"
  shows "ui_inv c'"
proof -
  have "ui_fields c' k = ui_fields c k" for k
    using assms(3,4,5) by (simp add: ui_fields_def split: timer_kind.splits)
  with assms(1,2) show ?thesis by (simp add: ui_inv_def table_ok_def)
qed

lemma ui_inv_clearSpeechPauseTimer:
  assumes "ui_inv c"
  shows "ui_inv (clearSpeechPauseTimer c)"
    and "timers_of PauseTimer (ui_timers (clearSpeechPauseTimer c)) = []"
    and "last_handle (ui_timers (clearSpeechPauseTimer c)) = last_handle (ui_timers c)"
proof -
  have ok: "table_ok (ui_fields c) (ui_timers c)" using assms by (simp add: ui_inv_def)
  show "last_handle (ui_timers (clearSpeechPauseTimer c)) = last_handle (ui_timers c)"
    by (simp add: clearSpeechPauseTimer_def split: option.splits)
  consider (idle) "speechPauseTimer c = None \<or> speechPauseTimer c = Some 0"
    | (armed) h where "speechPauseTimer c = Some h" "h \<noteq> 0"
    by (cases "speechPauseTimer c") auto
  then have "ui_inv (clearSpeechPauseTimer c)
             \<and> timers_of PauseTimer (ui_timers (clearSpeechPauseTimer c)) = []"
  proof cases
    case idle
    then have same: "clearSpeechPauseTimer c = c"
      by (auto simp: clearSpeechPauseTimer_def)
    from table_ok_none_of_kind [OF ok, of PauseTimer] idle
    show ?thesis using assms by (simp add: same)
  next
    case armed
    let ?c' = "c\<lparr>ui_timers := clearTimeout h (ui_timers c), speechPauseTimer := None\<rparr>"
    have eq: "clearSpeechPauseTimer c = ?c'" using armed by (simp add: clearSpeechPauseTimer_def)
    have "table_ok ((ui_fields c)(PauseTimer := None)) (clearTimeout h (ui_timers c))"
      by (rule table_ok_forget [OF ok]) (simp add: armed)
    then have "table_ok (ui_fields ?c') (ui_timers ?c')"
      by (rule table_ok_fields) (simp_all add: ui_fields_def split: timer_kind.splits)
    moreover have "timers_of PauseTimer (clearTimeout h (ui_timers c)) = []"
      by (rule table_ok_cleared_kind [OF ok]) (simp add: armed)
    ultimately show ?thesis by (simp add: eq ui_inv_def)
  qed
  then show "ui_inv (clearSpeechPauseTimer c)"
    and "timers_of PauseTimer (ui_timers (clearSpeechPauseTimer c)) = []" by simp_all
qed

lemma ui_inv_resetSpeechPauseTimer:
  assumes "ui_inv c"
  shows "ui_inv (resetSpeechPauseTimer c)"
    and "timers_of PauseTimer (ui_timers (resetSpeechPauseTimer c))
           = [(Suc (last_handle (ui_timers c)), PauseTimer, 1300)]"
proof -
  let ?c1 = "clearSpeechPauseTimer c"
  let ?r = "setTimeout PauseTimer 1300 (ui_timers ?c1)"
  let ?c' = "?c1\<lparr>ui_timers := snd ?r, speechPauseTimer := Some (fst ?r)\<rparr>"
  note cl = ui_inv_clearSpeechPauseTimer [OF assms]
  have eq: "resetSpeechPauseTimer c = ?c'"
    by (simp add: resetSpeechPauseTimer_def Let_def case_prod_unfold)
  have ok1: "table_ok (ui_fields ?c1) (ui_timers ?c1)" using cl(1) by (simp add: ui_inv_def)
  have "table_ok ((ui_fields ?c1)(PauseTimer := Some (fst ?r))) (snd ?r)"
    by (rule table_ok_arm(1) [OF ok1 cl(2)])
  then have "table_ok (ui_fields ?c') (ui_timers ?c')"
    by (rule table_ok_fields) (simp_all add: ui_fields_def split: timer_kind.splits)
  then show "ui_inv (resetSpeechPauseTimer c)" by (simp add: eq ui_inv_def)
  show "timers_of PauseTimer (ui_timers (resetSpeechPauseTimer c))
           = [(Suc (last_handle (ui_timers c)), PauseTimer, 1300)]"
    using table_ok_arm(2) [OF ok1 cl(2), of "1300"] by (simp add: eq cl(3))
qed

lemma ui_inv_clearScrollScheduleTimer:
  assumes "ui_inv c"
  shows "ui_inv (clearScrollScheduleTimer c)"
    and "timers_of ScrollTimer (ui_timers (clearScrollScheduleTimer c)) = []"
    and "last_handle (ui_timers (clearScrollScheduleTimer c)) = last_handle (ui_timers c)"
proof -
  have ok: "table_ok (ui_fields c) (ui_timers c)" using assms by (simp add: ui_inv_def)
  show "last_handle (ui_timers (clearScrollScheduleTimer c)) = last_handle (ui_timers c)"
    by (simp add: clearScrollScheduleTimer_def split: option.splits)
  consider (idle) "scrollScheduleTimer c = None \<or> scrollScheduleTimer c = Some 0"
    | (armed) h where "scrollScheduleTimer c = Some h" "h \<noteq> 0"
    by (cases "scrollScheduleTimer c") auto
  then have "ui_inv (clearScrollScheduleTimer c)
             \<and> timers_of ScrollTimer (ui_timers (clearScrollScheduleTimer c)) = []"
  proof cases
    case idle
    then have same: "clearScrollScheduleTimer c = c"
      by (auto simp: clearScrollScheduleTimer_def)
    from table_ok_none_of_kind [OF ok, of ScrollTimer] idle
    show ?thesis using assms by (simp add: same)
  next
    case armed
    let ?c' = "c\<lparr>ui_timers := clearTimeout h (ui_timers c), scrollScheduleTimer := None\<rparr>"
    have eq: "clearScrollScheduleTimer c = ?c'" using armed by (simp add: clearScrollScheduleTimer_def)
    have "table_ok ((ui_fields c)(ScrollTimer := None)) (clearTimeout h (ui_timers c))"
      by (rule table_ok_forget [OF ok]) (simp add: armed)
    then have "table_ok (ui_fields ?c') (ui_timers ?c')"
      by (rule table_ok_fields) (simp_all add: ui_fields_def split: timer_kind.splits)
    moreover have "timers_of ScrollTimer (clearTimeout h (ui_timers c)) = []"
      by (rule table_ok_cleared_kind [OF ok]) (simp add: armed)
    ultimately show ?thesis by (simp add: eq ui_inv_def)
  qed
  then show "ui_inv (clearScrollScheduleTimer c)"
    and "timers_of ScrollTimer (ui_timers (clearScrollScheduleTimer c)) = []" by simp_all
qed

lemma ui_inv_scheduleAutoScrollToLatest:
  assumes "ui_inv c"
  shows "ui_inv (scheduleAutoScrollToLatest c)"
    and "timers_of ScrollTimer (ui_timers (scheduleAutoScrollToLatest c))
           = [(Suc (last_handle (ui_timers c)), ScrollTimer, 0)]"
proof -
  let ?c1 = "clearScrollScheduleTimer c"
  let ?r = "setTimeout ScrollTimer 0 (ui_timers ?c1)"
  let ?c' = "?c1\<lparr>ui_timers := snd ?r, scrollScheduleTimer := Some (fst ?r)\<rparr>"
  note cl = ui_inv_clearScrollScheduleTimer [OF assms]
  have eq: "scheduleAutoScrollToLatest c = ?c'"
    by (simp add: scheduleAutoScrollToLatest_def Let_def case_prod_unfold)
  have ok1: "table_ok (ui_fields ?c1) (ui_timers ?c1)" using cl(1) by (simp add: ui_inv_def)
  have "table_ok ((ui_fields ?c1)(ScrollTimer := Some (fst ?r))) (snd ?r)"
    by (rule table_ok_arm(1) [OF ok1 cl(2)])
  then have "table_ok (ui_fields ?c') (ui_timers ?c')"
    by (rule table_ok_fields) (simp_all add: ui_fields_def split: timer_kind.splits)
  then show "ui_inv (scheduleAutoScrollToLatest c)" by (simp add: eq ui_inv_def)
  show "timers_of ScrollTimer (ui_timers (scheduleAutoScrollToLatest c))
           = [(Suc (last_handle (ui_timers c)), ScrollTimer, 0)]"
    using table_ok_arm(2) [OF ok1 cl(2), of "0"] by (simp add: eq cl(3))
qed

lemma ui_inv_stopCountdownTimer:
  assumes "ui_inv c"
  shows "ui_inv (stopCountdownTimer c)"
proof -
  have ok: "table_ok (ui_fields c) (ui_timers c)" using assms by (simp add: ui_inv_def)
  consider (idle) "countdownInterval c = None \<or> countdownInterval c = Some 0"
    | (armed) h where "countdownInterval c = Some h" "h \<noteq> 0"
    by (cases "countdownInterval c") auto
  then show ?thesis
  proof cases
    case idle
    then have same: "stopCountdownTimer c = c\<lparr>timeRemaining := 120\<rparr>"
      by (auto simp: stopCountdownTimer_def)
    show ?thesis unfolding same by (rule ui_inv_cong [OF assms]) simp_all
  next
    case armed
    let ?c' = "c\<lparr>ui_timers := clearTimeout h (ui_timers c), countdownInterval := None,
                 timeRemaining := 120\<rparr>"
    have eq: "stopCountdownTimer c = ?c'" using armed by (simp add: stopCountdownTimer_def)
    have "table_ok ((ui_fields c)(CountdownInterval := None)) (clearTimeout h (ui_timers c))"
      by (rule table_ok_forget [OF ok]) (simp add: armed ui_fields_def)
    then have "table_ok (ui_fields ?c') (ui_timers ?c')"
      by (rule table_ok_fields) (simp_all add: ui_fields_def split: timer_kind.splits)
    then show ?thesis by (simp add: eq ui_inv_def)
  qed
qed

lemma ui_inv_startCountdownTimer:
  assumes "ui_inv c"
  shows "ui_inv (startCountdownTimer c)"
proof (cases "truthy (countdownInterval c)")
  case True
  with assms show ?thesis by (simp add: startCountdownTimer_def)
next
  case False
  then have idle: "countdownInterval c = None \<or> countdownInterval c = Some 0"
    by (auto simp: truthy_def split: option.splits)
  let ?c1 = "c\<lparr>timeRemaining := 120\<rparr>"
  let ?r = "setTimeout CountdownInterval 1000 (ui_timers ?c1)"
  let ?c' = "?c1\<lparr>ui_timers := snd ?r, countdownInterval := Some (fst ?r)\<rparr>"
  have eq: "startCountdownTimer c = ?c'"
    using False by (simp add: startCountdownTimer_def Let_def case_prod_unfold)
  have ok: "table_ok (ui_fields c) (ui_timers c)" using assms by (simp add: ui_inv_def)
  have none: "timers_of CountdownInterval (ui_timers c) = []"
    by (rule table_ok_none_of_kind [OF ok]) (use idle in \<open>simp add: ui_fields_def\<close>)
  have "table_ok ((ui_fields c)(CountdownInterval := Some (fst ?r))) (snd ?r)"
    using table_ok_arm(1) [OF ok none, of 1000] by simp
  then have "table_ok (ui_fields ?c') (ui_timers ?c')"
    by (rule table_ok_fields) (simp_all add: ui_fields_def split: timer_kind.splits)
  then show ?thesis by (simp add: eq ui_inv_def)
qed

lemma ui_inv_flush:
  assumes "ui_inv c"
  shows "\<exists>c'. flushSpeechBuffer force c = Some c' \<and> ui_inv c'"
proof -
  obtain c' where c': "flushSpeechBuffer force c = Some c'" "ui_timers c' = ui_timers c"
      "speechPauseTimer c' = speechPauseTimer c" "scrollScheduleTimer c' = scrollScheduleTimer c"
      "countdownInterval c' = countdownInterval c"
    using flushSpeechBuffer_props [of force c] by blast
  from ui_inv_cong [OF assms c'(2-5)] c'(1) show ?thesis by blast
qed

lemma ui_inv_timer_fires:
  assumes "ui_inv c"
  shows "\<exists>c'. ui_timer_fires h c = Some c' \<and> ui_inv c'"
proof (cases "find (\<lambda>t. fst t = h) (pending (ui_timers c))")
  case None
  with assms show ?thesis by (simp add: ui_timer_fires_def)
next
  case (Some t)
  obtain h' k d where t: "t = (h', k, d)" by (cases t)
  from find_Some_mem [OF Some] t have mem: "(h, k, d) \<in> set (pending (ui_timers c))"
    by auto
  have ok: "table_ok (ui_fields c) (ui_timers c)" using assms by (simp add: ui_inv_def)
  with mem have fk: "ui_fields c k = Some h" by (auto simp: table_ok_def)
  let ?c1 = "c\<lparr>ui_timers := remove_timer h (ui_timers c)\<rparr>"
  have "table_ok (ui_fields c) (remove_timer h (ui_timers c))"
    by (rule table_ok_remove [OF ok])
  then have c1: "ui_inv ?c1"
    unfolding ui_inv_def
    by (rule table_ok_fields) (simp_all add: ui_fields_def split: timer_kind.splits)
  show ?thesis
  proof (cases k)
    case PauseTimer
    with ui_inv_flush [OF c1, of True] Some t show ?thesis by (simp add: ui_timer_fires_def)
  next
    case ScrollTimer
    let ?c' = "c\<lparr>ui_timers := remove_timer h (ui_timers c), scrollScheduleTimer := None\<rparr>"
    have "table_ok ((ui_fields c)(ScrollTimer := None)) (remove_timer h (ui_timers c))"
      by (rule table_ok_forget(2) [OF ok]) (use fk ScrollTimer in simp)
    then have "table_ok (ui_fields ?c') (ui_timers ?c')"
      by (rule table_ok_fields) (simp_all add: ui_fields_def split: timer_kind.splits)
    with Some t ScrollTimer show ?thesis by (simp add: ui_timer_fires_def ui_inv_def)
  next
    case CountdownInterval
    have "ui_inv (c\<lparr>timeRemaining := timeRemaining c - 1\<rparr>)"
      by (rule ui_inv_cong [OF assms]) simp_all
    with ui_inv_stopCountdownTimer [OF assms] Some t CountdownInterval
    show ?thesis by (simp add: ui_timer_fires_def countdown_tick_def)
  next
    case InactivityTimer
    with Some t assms show ?thesis by (simp add: ui_timer_fires_def)
  next
    case RestartTimer
    with Some t assms show ?thesis by (simp add: ui_timer_fires_def)
  qed
qed

lemma ui_inv_step:
  assumes "ui_inv c"
  shows "\<exists>c'. ui_step e c = Some c' \<and> ui_inv c'"
proof (cases e)
  case (Transcript t isFinal)
  let ?c0 = "c\<lparr>manualMode := False, segments := [], interimOriginal := [],
                interimTranslated := [], speechBuffer := []\<rparr>"
  let ?c1 = "if manualMode c then clearSpeechPauseTimer ?c0 else c"
  let ?c3 = "resetSpeechPauseTimer (resetCountdownToFull ?c1)"
  have "ui_inv ?c0" by (rule ui_inv_cong [OF assms]) simp_all
  from ui_inv_clearSpeechPauseTimer(1) [OF this] assms have "ui_inv ?c1" by simp
  then have "ui_inv (resetCountdownToFull ?c1)" by (rule ui_inv_cong) simp_all
  then have c3: "ui_inv ?c3" by (rule ui_inv_resetSpeechPauseTimer(1))
  have "ui_inv (?c3\<lparr>speechBuffer := joinWithSpace (speechBuffer ?c3) (trim t)\<rparr>)"
    by (rule ui_inv_cong [OF c3]) simp_all
  from ui_inv_flush [OF this, of False]
  obtain c' where c': "flushSpeechBuffer False
      (?c3\<lparr>speechBuffer := joinWithSpace (speechBuffer ?c3) (trim t)\<rparr>) = Some c'" "ui_inv c'"
    by blast
  have "ui_inv (rebuildDisplayStrings
                  (?c3\<lparr>interimOriginal := joinWithSpace (speechBuffer ?c3) (trim t),
                       interimTranslated := []\<rparr>))"
    by (rule ui_inv_cong [OF c3]) simp_all
  with c3 c' Transcript show ?thesis
    by (auto simp: on_transcript_def Let_def)
next
  case (ListeningChanged b)
  let ?c1 = "c\<lparr>isListening := b\<rparr>"
  have c1: "ui_inv ?c1" by (rule ui_inv_cong [OF assms]) simp_all
  from ui_inv_flush [OF ui_inv_clearSpeechPauseTimer(1) [OF c1], of True]
  obtain c' where c': "flushSpeechBuffer True (clearSpeechPauseTimer ?c1) = Some c'" "ui_inv c'"
    by blast
  from c1 c' ui_inv_stopCountdownTimer [OF c'(2)] ui_inv_startCountdownTimer [OF c1]
    ListeningChanged
  show ?thesis by (auto simp: on_listening_def Let_def)
next
  case (ErrorEvent x)
  have "ui_inv (handleError x c)" by (rule ui_inv_cong [OF assms]) simp_all
  with ErrorEvent show ?thesis by simp
next
  case (TranslateResponse i r)
  have "ui_inv (on_translate_response i r c)" by (rule ui_inv_cong [OF assms]) simp_all
  with TranslateResponse show ?thesis by simp
next
  case DisplayChanged
  with ui_inv_scheduleAutoScrollToLatest(1) [OF assms] show ?thesis by simp
next
  case (UiTimerFires h)
  with ui_inv_timer_fires [OF assms, of h] show ?thesis by simp
next
  case ClearText
  have "ui_inv (c\<lparr>originalText := [], translatedText := [], errorMessage := NoMessage,
                  segments := [], interimOriginal := [], interimTranslated := [],
                  manualMode := False, speechBuffer := []\<rparr>)"
    by (rule ui_inv_cong [OF assms]) simp_all
  from ui_inv_clearSpeechPauseTimer(1) [OF this] ClearText show ?thesis
    by (simp add: clearText_def)
next
  case (TextChange t)
  have "ui_inv (onTextChange t c)"
    by (rule ui_inv_cong [OF assms]) (simp_all add: onTextChange_def Let_def)
  with TextChange show ?thesis by simp
next
  case Destroy
  have "ui_inv (ngOnDestroy c)"
    unfolding ngOnDestroy_def
    by (intro ui_inv_clearScrollScheduleTimer(1) ui_inv_clearSpeechPauseTimer(1)
          ui_inv_stopCountdownTimer assms)
  with Destroy show ?thesis by simp
qed

lemma ui_inv_run:
  assumes "ui_inv c"
  shows "\<exists>c'. ui_run evs c = Some c' \<and> ui_inv c'"
  using assms
proof (induction evs arbitrary: c)
  case Nil
  then show ?case by simp
next
  case (Cons e evs)
  obtain c1 where "ui_step e c = Some c1" "ui_inv c1"
    using ui_inv_step [OF Cons.prems] by blast
  with Cons.IH [of c1] show ?case by simp
qed

lemma ui_inv_init: "ui_inv (component_init lang)"
  by (simp add: ui_inv_def table_ok_def component_init_def)

lemma ui_inv_reachable:
  assumes "ui_run evs (component_init lang) = Some c"
  shows "ui_inv c"
  using ui_inv_run [OF ui_inv_init, of evs lang] assms by simp

text \<open>
  Claim C9. In every state the service and the component reach, for each kind of timer
  at most one timer is outstanding; and each of the four arming operations, run in a
  reachable state, leaves exactly one outstanding timer of its kind, the new one: the
  prior handle of that kind has been cancelled.
\<close>

theorem one_timer_per_kind:
  "(\<exists>s. svc_run evs (service_init mobile supported) = Normal s
        \<and> (\<forall>k. length (timers_of k (svc_timers s)) \<le> 1)
        \<and> timers_of InactivityTimer (svc_timers (startListeningTimeout s))
            = [(Suc (last_handle (svc_timers s)), InactivityTimer, 120000)]
        \<and> timers_of RestartTimer (svc_timers (scheduleRestart s))
            = [(Suc (last_handle (svc_timers s)), RestartTimer, restart_delay s)])
   \<and> (\<exists>c. ui_run uevs (component_init lang) = Some c
        \<and> (\<forall>k. length (timers_of k (ui_timers c)) \<le> 1)
        \<and> timers_of PauseTimer (ui_timers (resetSpeechPauseTimer c))
            = [(Suc (last_handle (ui_timers c)), PauseTimer, 1300)]
        \<and> timers_of ScrollTimer (ui_timers (scheduleAutoScrollToLatest c))
            = [(Suc (last_handle (ui_timers c)), ScrollTimer, 0)])"
proof
  obtain s where s: "svc_run evs (service_init mobile supported) = Normal s" "svc_inv s"
    using svc_inv_run [OF svc_inv_init] by blast
  have "\<forall>k. length (timers_of k (svc_timers s)) \<le> 1"
    using s(2) table_ok_at_most_one by (auto simp: svc_inv_def)
  with s svc_inv_startListeningTimeout(2) [OF s(2)] svc_inv_scheduleRestart(2) [OF s(2)]
  show "\<exists>s. svc_run evs (service_init mobile supported) = Normal s
        \<and> (\<forall>k. length (timers_of k (svc_timers s)) \<le> 1)
        \<and> timers_of InactivityTimer (svc_timers (startListeningTimeout s))
            = [(Suc (last_handle (svc_timers s)), InactivityTimer, 120000)]
        \<and> timers_of RestartTimer (svc_timers (scheduleRestart s))
            = [(Suc (last_handle (svc_timers s)), RestartTimer, restart_delay s)]"
    by (auto simp: listeningDuration_def)
next
  obtain c where c: "ui_run uevs (component_init lang) = Some c" "ui_inv c"
    using ui_inv_run [OF ui_inv_init] by blast
  have "\<forall>k. length (timers_of k (ui_timers c)) \<le> 1"
    using c(2) table_ok_at_most_one by (auto simp: ui_inv_def)
  with c ui_inv_resetSpeechPauseTimer(2) [OF c(2)] ui_inv_scheduleAutoScrollToLatest(2) [OF c(2)]
  show "\<exists>c. ui_run uevs (component_init lang) = Some c
        \<and> (\<forall>k. length (timers_of k (ui_timers c)) \<le> 1)
        \<and> timers_of PauseTimer (ui_timers (resetSpeechPauseTimer c))
            = [(Suc (last_handle (ui_timers c)), PauseTimer, 1300)]
        \<and> timers_of ScrollTimer (ui_timers (scheduleAutoScrollToLatest c))
            = [(Suc (last_handle (ui_timers c)), ScrollTimer, 0)]"
    by auto
qed

theorem one_timer_per_kind_witness:
  "(\<exists>s. svc_run [StartListeningCalled, PermissionSettled ''fr-FR'' Granted Returns, OnStart,
                  OnResult [(js ''hi'', True)], OnEnd]
           (service_init False True) = Normal s
        \<and> length (timers_of InactivityTimer (svc_timers s)) \<le> 1
        \<and> length (timers_of RestartTimer (svc_timers s)) \<le> 1)
   \<and> (\<exists>c. ui_run [Transcript (js ''a'') False, DisplayChanged, Transcript (js ''b.'') True,
                   DisplayChanged]
           (component_init ''fr'') = Some c
        \<and> length (timers_of PauseTimer (ui_timers c)) \<le> 1
        \<and> length (timers_of ScrollTimer (ui_timers c)) \<le> 1)"
  using one_timer_per_kind
    [of "[StartListeningCalled, PermissionSettled ''fr-FR'' Granted Returns, OnStart,
          OnResult [(js ''hi'', True)], OnEnd]" False True
        "[Transcript (js ''a'') False, DisplayChanged, Transcript (js ''b.'') True,
          DisplayChanged]" "''fr''"]
  by blast

section \<open>Restart backoff\<close>

text \<open>
  Claim C3. In every state the service reaches: when the engine's \<open>onend\<close> fires while
  \<open>shouldBeListening\<close> is true and the service was not manually stopped, exactly one
  restart timer is outstanding afterwards, with the delay
  \<open>min (base + restartAttempts * step + penalty) cap\<close>, where base, step and cap are
  1500, 500 and 5000 ms on a mobile device and 300, 250 and 2000 ms otherwise, and the
  penalty is 1000 ms on a mobile device whose last non-critical error was \<open>no-speech\<close>;
  \<open>restartAttempts\<close> grows by exactly one with each scheduled restart, and \<open>onstart\<close>
  sets it to zero.
\<close>

theorem onend_schedules_restart:
  assumes "svc_run evs (service_init mobile supported) = Normal s"
    and "shouldBeListening s" "\<not> isManuallyStopped s"
  shows "timers_of RestartTimer (svc_timers (onend s))
           = [(Suc (last_handle (svc_timers s)), RestartTimer,
               min ((if isMobileDevice s then 1500 else 300)
                    + restartAttempts s * (if isMobileDevice s then 500 else 250)
                    + (if isMobileDevice s \<and> lastNonCriticalError s = Some ''no-speech''
                       then 1000 else 0))
                   (if isMobileDevice s then 5000 else 2000))]
    \<and> restartTimeout (onend s) = Some (Suc (last_handle (svc_timers s)))
    \<and> restartAttempts (onend s) = restartAttempts s + 1
    \<and> restartAttempts (scheduleRestart s) = restartAttempts s + 1
    \<and> restartAttempts (onstart s') = 0
    \<and> isRecognizing (onstart s') \<and> \<not> isRecognizing (onend s)"
proof -
  let ?s1 = "s\<lparr>isRecognizing := False\<rparr>"
  have inv: "svc_inv s" by (rule svc_inv_reachable [OF assms(1)])
  have s1: "svc_inv ?s1" by (rule svc_inv_cong [OF inv]) simp_all
  have e: "onend s = scheduleRestart ?s1" using assms(2,3) by (simp add: onend_def Let_def)
  have d: "restart_delay ?s1 = min ((if isMobileDevice s then 1500 else 300)
                    + restartAttempts s * (if isMobileDevice s then 500 else 250)
                    + (if isMobileDevice s \<and> lastNonCriticalError s = Some ''no-speech''
                       then 1000 else 0))
                   (if isMobileDevice s then 5000 else 2000)"
    by (simp add: restart_delay_def)
  from svc_inv_scheduleRestart(2,3,4) [OF s1] svc_inv_scheduleRestart(4) [OF inv]
  show ?thesis unfolding e d by (simp add: onstart_def)
qed

theorem onend_schedules_restart_witness:
  "svc_run [StartListeningCalled] (service_init True True)
     = Normal ((service_init True True)\<lparr>shouldBeListening := True\<rparr>)
   \<and> shouldBeListening ((service_init True True)\<lparr>shouldBeListening := True\<rparr>)
   \<and> \<not> isManuallyStopped ((service_init True True)\<lparr>shouldBeListening := True\<rparr>)
   \<and> timers_of RestartTimer
        (svc_timers (onend ((service_init True True)\<lparr>shouldBeListening := True\<rparr>)))
       = [(1, RestartTimer, 1500)]
   \<and> restartAttempts (onend ((service_init True True)\<lparr>shouldBeListening := True\<rparr>)) = 1"
proof -
  let ?s = "(service_init True True)\<lparr>shouldBeListening := True\<rparr>"
  have r: "svc_run [StartListeningCalled] (service_init True True) = Normal ?s"
    by (simp add: startListening_begin_def service_init_def)
  have a: "shouldBeListening ?s" and b: "\<not> isManuallyStopped ?s"
    by (simp_all add: service_init_def)
  have f: "isMobileDevice ?s" "restartAttempts ?s = 0" "lastNonCriticalError ?s = None"
    "last_handle (svc_timers ?s) = 0" "last_handle (svc_timers (service_init True True)) = 0"
    by (simp_all add: service_init_def)
  from onend_schedules_restart [OF r a b] r a b show ?thesis
    by (simp add: f)
qed

section \<open>Inactivity timeout\<close>

lemma timers_of_remove:
  "timers_of k (remove_timer h tab) = filter (\<lambda>t. fst t \<noteq> h) (timers_of k tab)"
  by (auto simp: timers_of_def remove_timer_def intro: filter_cong)

lemma find_handle:
  assumes "distinct (map fst xs)" "(h, k, d) \<in> set xs"
  shows "find (\<lambda>t. fst t = h) xs = Some (h, k, d)"
  using assms
proof (induction xs)
  case Nil
  then show ?case by simp
next
  case (Cons x xs)
  then show ?case by (cases "x = (h, k, d)") (auto simp: image_iff)
qed

lemma onresult_activity:
  "transcriptSubject (onresult results s) \<noteq> transcriptSubject s
     \<longleftrightarrow> trim (snd (collect_results results [] [])) \<noteq> []
         \<or> trim (fst (collect_results results [] [])) \<noteq> []"
  by (cases "collect_results results [] []") (auto simp: onresult_def Let_def)

text \<open>
  Claim C4. In every state the service reaches: a result event that carries finalized
  or interim text (the events that emit a transcript) while \<open>shouldBeListening\<close> is true
  leaves exactly one inactivity timer outstanding, a new one of 120000 ms. When an
  outstanding inactivity timer expires and the engine's \<open>stop()\<close> returns, the service
  is marked manually stopped, the stop is requested, \<open>timeout\<close> is emitted on the error
  stream once, and no inactivity timer is outstanding afterwards. (If \<open>stop()\<close> throws,
  the error is swallowed and nothing is emitted.)
\<close>

theorem inactivity_timeout:
  assumes "svc_run evs (service_init mobile supported) = Normal s"
  shows "(transcriptSubject (onresult results s) \<noteq> transcriptSubject s
            \<longleftrightarrow> trim (snd (collect_results results [] [])) \<noteq> []
                \<or> trim (fst (collect_results results [] [])) \<noteq> [])
    \<and> (shouldBeListening s \<and> transcriptSubject (onresult results s) \<noteq> transcriptSubject s
         \<longrightarrow> timers_of InactivityTimer (svc_timers (onresult results s))
               = [(Suc (last_handle (svc_timers s)), InactivityTimer, 120000)])
    \<and> (recognition s \<and> (h, InactivityTimer, d) \<in> set (pending (svc_timers s))
         \<longrightarrow> isManuallyStopped (svc_timer_fires h Returns s)
             \<and> engine_calls (svc_timer_fires h Returns s) = engine_calls s @ [EngineStop]
             \<and> errorSubject (svc_timer_fires h Returns s) = errorSubject s @ [''timeout'']
             \<and> timers_of InactivityTimer (svc_timers (svc_timer_fires h Returns s)) = []
             \<and> isManuallyStopped (svc_timer_fires h (Throws e) s)
             \<and> errorSubject (svc_timer_fires h (Throws e) s) = errorSubject s)"
proof (intro conjI impI)
  show "transcriptSubject (onresult results s) \<noteq> transcriptSubject s
            \<longleftrightarrow> trim (snd (collect_results results [] [])) \<noteq> []
                \<or> trim (fst (collect_results results [] [])) \<noteq> []"
    by (rule onresult_activity)
next
  assume a: "shouldBeListening s \<and> transcriptSubject (onresult results s) \<noteq> transcriptSubject s"
  obtain i f where c: "collect_results results [] [] = (i, f)"
    by (cases "collect_results results [] []")
  let ?s1 = "if trim f \<noteq> [] then s\<lparr>transcriptSubject := transcriptSubject s @ [(trim f, True)]\<rparr> else s"
  let ?s2 = "if trim i \<noteq> [] then ?s1\<lparr>transcriptSubject := transcriptSubject ?s1 @ [(trim i, False)]\<rparr> else ?s1"
  have inv: "svc_inv s" by (rule svc_inv_reachable [OF assms])
  have s2: "svc_inv ?s2" by (rule svc_inv_cong [OF inv]) simp_all
  from a have act: "trim f \<noteq> [] \<or> trim i \<noteq> []" by (simp add: onresult_activity c)
  with a have "onresult results s = startListeningTimeout ?s2"
    by (auto simp: onresult_def c Let_def)
  moreover have "svc_timers ?s2 = svc_timers s" by simp
  ultimately show "timers_of InactivityTimer (svc_timers (onresult results s))
               = [(Suc (last_handle (svc_timers s)), InactivityTimer, 120000)]"
    using svc_inv_startListeningTimeout(2) [OF s2] by (simp add: listeningDuration_def)
next
  assume a: "recognition s \<and> (h, InactivityTimer, d) \<in> set (pending (svc_timers s))"
  have inv: "svc_inv s" by (rule svc_inv_reachable [OF assms])
  then have ok: "table_ok (svc_fields s) (svc_timers s)" by (simp add: svc_inv_def)
  then have dist: "distinct (map fst (pending (svc_timers s)))" by (simp add: table_ok_def)
  have f: "find (\<lambda>t. fst t = h) (pending (svc_timers s)) = Some (h, InactivityTimer, d)"
    by (rule find_handle [OF dist]) (use a in simp)
  let ?s1 = "s\<lparr>svc_timers := remove_timer h (svc_timers s)\<rparr>"
  have fire: "svc_timer_fires h reply s = inactivity_callback reply ?s1" for reply
    by (simp add: svc_timer_fires_def f)
  have fh: "svc_fields s InactivityTimer = Some h"
    using ok a by (force simp: table_ok_def)
  have "\<forall>t\<in>set (timers_of InactivityTimer (svc_timers s)).
          svc_fields s InactivityTimer = Some (fst t)"
    using ok by (auto simp: table_ok_def timers_of_def)
  with fh have "\<forall>t\<in>set (timers_of InactivityTimer (svc_timers s)). fst t = h"
    by simp
  then have gone: "timers_of InactivityTimer (remove_timer h (svc_timers s)) = []"
    by (simp add: timers_of_remove filter_empty_conv)
  show "isManuallyStopped (svc_timer_fires h Returns s)"
    and "engine_calls (svc_timer_fires h Returns s) = engine_calls s @ [EngineStop]"
    and "errorSubject (svc_timer_fires h Returns s) = errorSubject s @ [''timeout'']"
    and "isManuallyStopped (svc_timer_fires h (Throws e) s)"
    and "errorSubject (svc_timer_fires h (Throws e) s) = errorSubject s"
    using a by (simp_all add: fire inactivity_callback_def engine_stop_def Let_def)
  show "timers_of InactivityTimer (svc_timers (svc_timer_fires h Returns s)) = []"
    using gone by (simp add: fire)
qed

theorem inactivity_timeout_witness:
  "svc_run [StartListeningCalled, PermissionSettled ''fr-FR'' Granted Returns]
     (service_init False True)
     = Normal ((service_init False True)
                 \<lparr>recognition_lang := ''fr-FR'', listeningTimeout := Some 1,
                  shouldBeListening := True, engine_calls := [EngineStart],
                  svc_timers := \<lparr>last_handle = 1, pending = [(1, InactivityTimer, 120000)]\<rparr>\<rparr>)
   \<and> timers_of InactivityTimer
        (svc_timers (onresult [(js ''hi'', True)]
           ((service_init False True)
                 \<lparr>recognition_lang := ''fr-FR'', listeningTimeout := Some 1,
                  shouldBeListening := True, engine_calls := [EngineStart],
                  svc_timers := \<lparr>last_handle = 1, pending = [(1, InactivityTimer, 120000)]\<rparr>\<rparr>)))
       = [(2, InactivityTimer, 120000)]
   \<and> errorSubject (svc_timer_fires 1 Returns
           ((service_init False True)
                 \<lparr>recognition_lang := ''fr-FR'', listeningTimeout := Some 1,
                  shouldBeListening := True, engine_calls := [EngineStart],
                  svc_timers := \<lparr>last_handle = 1, pending = [(1, InactivityTimer, 120000)]\<rparr>\<rparr>))
       = [''timeout'']
   \<and> engine_calls (svc_timer_fires 1 Returns
           ((service_init False True)
                 \<lparr>recognition_lang := ''fr-FR'', listeningTimeout := Some 1,
                  shouldBeListening := True, engine_calls := [EngineStart],
                  svc_timers := \<lparr>last_handle = 1, pending = [(1, InactivityTimer, 120000)]\<rparr>\<rparr>))
       = [EngineStart, EngineStop]"
proof -
  let ?s = "(service_init False True)
                 \<lparr>recognition_lang := ''fr-FR'', listeningTimeout := Some 1,
                  shouldBeListening := True, engine_calls := [EngineStart],
                  svc_timers := \<lparr>last_handle = 1, pending = [(1, InactivityTimer, 120000)]\<rparr>\<rparr>"
  have r: "svc_run [StartListeningCalled, PermissionSettled ''fr-FR'' Granted Returns]
             (service_init False True) = Normal ?s"
    by (simp add: startListening_begin_def startListening_resume_def
          requestMicrophonePermission_def startRecognitionSafely_def engine_start_def
          startListeningTimeout_def clearListeningTimeout_def setTimeout_def
          listeningDuration_def service_init_def)
  have "trim (snd (collect_results [(js ''hi'', True)] [] [])) \<noteq> []"
    by (simp add: trim_def js_def isWhiteSpace_def SPACE_def)
  then have act: "transcriptSubject (onresult [(js ''hi'', True)] ?s) \<noteq> transcriptSubject ?s"
    using onresult_activity by blast
  have f: "shouldBeListening ?s" "recognition ?s" "last_handle (svc_timers ?s) = 1"
    "(1, InactivityTimer, 120000) \<in> set (pending (svc_timers ?s))"
    "errorSubject ?s = []" "engine_calls ?s = [EngineStart]"
    by (simp_all add: service_init_def)
  note main = inactivity_timeout [OF r, of "[(js ''hi'', True)]" 1 120000]
  from main f(1) act
  have 1: "timers_of InactivityTimer (svc_timers (onresult [(js ''hi'', True)] ?s))
             = [(2, InactivityTimer, 120000)]"
    by (simp only: f(3)) simp
  from main f(2,4)
  have 2: "errorSubject (svc_timer_fires 1 Returns ?s) = errorSubject ?s @ [''timeout'']"
    and 3: "engine_calls (svc_timer_fires 1 Returns ?s) = engine_calls ?s @ [EngineStop]"
    by blast+
  from r 1 2 3 show ?thesis by (simp only: f(5,6) append_Nil append_Cons simp_thms)
qed

section \<open>Engine errors\<close>

lemma onresult_errorSubject [simp]: "errorSubject (onresult results s) = errorSubject s"
  by (cases "collect_results results [] []") (simp add: onresult_def Let_def)

lemma onend_errorSubject [simp]: "errorSubject (onend s) = errorSubject s"
  by (simp add: onend_def Let_def)

lemma onerror_errorSubject:
  "errorSubject (onerror error reply s)
     = (if error = ''no-speech'' then errorSubject s else errorSubject s @ [error])"
  by (simp add: onerror_def Let_def)

lemma inactivity_callback_errorSubject:
  "set (errorSubject (inactivity_callback reply s)) \<subseteq> insert ''timeout'' (set (errorSubject s))"
  by (cases reply) (auto simp: inactivity_callback_def Let_def engine_stop_def)

lemma svc_timer_fires_errorSubject:
  "set (errorSubject (svc_timer_fires h reply s)) \<subseteq> insert ''timeout'' (set (errorSubject s))"
proof (cases "find (\<lambda>t. fst t = h) (pending (svc_timers s))")
  case None
  then show ?thesis by (auto simp: svc_timer_fires_def)
next
  case (Some t)
  obtain h' k d where t: "t = (h', k, d)" by (cases t)
  show ?thesis
  proof (cases k)
    case InactivityTimer
    with Some t inactivity_callback_errorSubject
      [of reply "s\<lparr>svc_timers := remove_timer h (svc_timers s)\<rparr>"]
    show ?thesis by (simp add: svc_timer_fires_def)
  qed (use Some t in \<open>auto simp: svc_timer_fires_def\<close>)
qed

lemma no_speech_step:
  assumes "''no-speech'' \<notin> set (errorSubject s)" "svc_step e s = Normal s'"
  shows "''no-speech'' \<notin> set (errorSubject s')"
proof (cases e)
  case StartListeningCalled
  with assms show ?thesis by (auto simp: startListening_begin_def split: if_splits)
next
  case (PermissionSettled language mic reply)
  with assms show ?thesis
    by (cases mic)
       (auto simp: startListening_resume_def requestMicrophonePermission_def split: if_splits)
next
  case (StopListening reply)
  with assms show ?thesis by auto
next
  case (OnResult results)
  with assms show ?thesis by (auto split: if_splits)
next
  case (OnError error reply)
  with assms show ?thesis by (auto simp: onerror_errorSubject split: if_splits)
next
  case OnStart
  with assms show ?thesis by (auto split: if_splits)
next
  case OnEnd
  with assms show ?thesis by (auto split: if_splits)
next
  case (SvcTimerFires h reply)
  with assms svc_timer_fires_errorSubject [of h reply s] show ?thesis by auto
qed

lemma no_speech_run:
  assumes "''no-speech'' \<notin> set (errorSubject s)" "svc_run evs s = Normal s'"
  shows "''no-speech'' \<notin> set (errorSubject s')"
  using assms
proof (induction evs arbitrary: s)
  case Nil
  then show ?case by simp
next
  case (Cons e evs)
  from Cons.prems(2) obtain s1 where s1: "svc_step e s = Normal s1" "svc_run evs s1 = Normal s'"
    by (auto split: completion.splits)
  from no_speech_step [OF Cons.prems(1) s1(1)] Cons.IH s1(2) show ?case by blast
qed

text \<open>
  Claim C5. For an engine error event of the service: \<open>no-speech\<close> only records the
  kind as the last non-critical error, so that the listening state and the error stream
  are unchanged (and the component's error handler ignores that kind); no event
  sequence ever puts \<open>no-speech\<close> on the error stream. The kinds \<open>not-allowed\<close>,
  \<open>audio-capture\<close> and \<open>service-not-allowed\<close> are emitted on the error stream and stop
  listening: \<open>shouldBeListening\<close> is false, the service is marked manually stopped and
  a listening engine is asked to stop. Every other kind is emitted on the error stream
  and changes nothing else but the record of the last error.
\<close>

theorem onerror_kinds:
  "onerror ''no-speech'' reply s = s\<lparr>lastNonCriticalError := Some ''no-speech''\<rparr>
   \<and> handleError ''no-speech'' c = c
   \<and> (svc_run evs (service_init mobile supported) = Normal s'
        \<longrightarrow> ''no-speech'' \<notin> set (errorSubject s'))
   \<and> (error \<in> set [''not-allowed'', ''audio-capture'', ''service-not-allowed'']
        \<longrightarrow> errorSubject (onerror error reply s) = errorSubject s @ [error]
            \<and> \<not> shouldBeListening (onerror error reply s)
            \<and> isManuallyStopped (onerror error reply s)
            \<and> engine_calls (onerror error Returns s)
                = engine_calls s @ (if recognition s \<and> listening_value s then [EngineStop] else []))
   \<and> (error \<noteq> ''no-speech''
        \<and> error \<notin> set [''not-allowed'', ''audio-capture'', ''service-not-allowed'']
        \<longrightarrow> onerror error reply s
              = s\<lparr>lastNonCriticalError := (if error = [] then None else Some error),
                  errorSubject := errorSubject s @ [error]\<rparr>)"
proof (intro conjI impI)
  show "onerror ''no-speech'' reply s = s\<lparr>lastNonCriticalError := Some ''no-speech''\<rparr>"
    by (simp add: onerror_def)
  show "handleError ''no-speech'' c = c"
    by (simp add: handleError_def)
next
  assume "svc_run evs (service_init mobile supported) = Normal s'"
  moreover have "''no-speech'' \<notin> set (errorSubject (service_init mobile supported))"
    by (simp add: service_init_def)
  ultimately show "''no-speech'' \<notin> set (errorSubject s')"
    using no_speech_run by blast
next
  assume c: "error \<in> set [''not-allowed'', ''audio-capture'', ''service-not-allowed'']"
  then have ns: "error \<noteq> ''no-speech''" by auto
  let ?s1 = "s\<lparr>lastNonCriticalError := (if error = [] then None else Some error),
               errorSubject := errorSubject s @ [error]\<rparr>"
  have e: "onerror error reply s = stopListening reply ?s1" for reply
    using c ns by (simp add: onerror_def Let_def criticalErrors_def)
  show "errorSubject (onerror error reply s) = errorSubject s @ [error]"
    by (simp add: e)
  show "\<not> shouldBeListening (onerror error reply s)"
    and "isManuallyStopped (onerror error reply s)"
    by (cases reply; simp add: e stopListening_def Let_def engine_stop_def)+
  show "engine_calls (onerror error Returns s)
          = engine_calls s @ (if recognition s \<and> listening_value s then [EngineStop] else [])"
    by (simp add: e stopListening_def Let_def engine_stop_def listening_value_def)
next
  assume "error \<noteq> ''no-speech''
        \<and> error \<notin> set [''not-allowed'', ''audio-capture'', ''service-not-allowed'']"
  then show "onerror error reply s
              = s\<lparr>lastNonCriticalError := (if error = [] then None else Some error),
                  errorSubject := errorSubject s @ [error]\<rparr>"
    by (simp add: onerror_def Let_def criticalErrors_def)
qed

theorem onerror_kinds_witness:
  "svc_run [OnError ''no-speech'' Returns] (service_init False True)
     = Normal ((service_init False True)\<lparr>lastNonCriticalError := Some ''no-speech''\<rparr>)
   \<and> ''no-speech'' \<notin> set (errorSubject
         ((service_init False True)\<lparr>lastNonCriticalError := Some ''no-speech''\<rparr>))
   \<and> errorSubject (onerror ''not-allowed'' Returns
         ((service_init False True)\<lparr>shouldBeListening := True\<rparr>)) = [''not-allowed'']
   \<and> \<not> shouldBeListening (onerror ''not-allowed'' Returns
         ((service_init False True)\<lparr>shouldBeListening := True\<rparr>))
   \<and> onerror ''network'' Returns ((service_init False True)\<lparr>shouldBeListening := True\<rparr>)
       = (service_init False True)
           \<lparr>shouldBeListening := True, lastNonCriticalError := Some ''network'',
            errorSubject := [''network'']\<rparr>"
proof -
  let ?s = "(service_init False True)\<lparr>shouldBeListening := True\<rparr>"
  let ?q = "(service_init False True)\<lparr>lastNonCriticalError := Some ''no-speech''\<rparr>"
  have r: "svc_run [OnError ''no-speech'' Returns] (service_init False True) = Normal ?q"
    by (simp add: onerror_def service_init_def)
  have e: "errorSubject ?s = []" by (simp add: service_init_def)
  note a = onerror_kinds [of Returns ?s _ "[OnError ''no-speech'' Returns]" False True ?q
      "''not-allowed''"]
  note b = onerror_kinds [of Returns ?s _ _ _ _ _ "''network''"]
  from a r have 1: "''no-speech'' \<notin> set (errorSubject ?q)" by blast
  from a have 2: "errorSubject (onerror ''not-allowed'' Returns ?s) = errorSubject ?s @ [''not-allowed'']"
    and 3: "\<not> shouldBeListening (onerror ''not-allowed'' Returns ?s)"
    by simp_all
  from b have 4: "onerror ''network'' Returns ?s
       = ?s\<lparr>lastNonCriticalError := Some ''network'', errorSubject := errorSubject ?s @ [''network'']\<rparr>"
    by simp
  from r 1 2 3 4 show ?thesis by (simp add: e)
qed

section \<open>Starting to listen\<close>

lemma startListeningTimeout_armed:
  "\<exists>h. listeningTimeout (startListeningTimeout s) = Some h
       \<and> (h, InactivityTimer, 120000) \<in> set (pending (svc_timers (startListeningTimeout s)))"
  by (simp add: startListeningTimeout_def setTimeout_def Let_def listeningDuration_def)

lemma startRecognitionSafely_calls:
  "engine_calls (startRecognitionSafely reply s)
     = engine_calls s @ (if recognition s \<and> \<not> isRecognizing s \<and> reply = Returns
                          then [EngineStart] else [])"
  by (cases reply) (simp_all add: startRecognitionSafely_def engine_start_def)

text \<open>
  Claim C6, as amended. A call of \<open>startListening\<close> never throws. With an engine,
  \<open>shouldBeListening\<close> is set to true as soon as the call is made, before the permission
  request, and stays true when permission is refused: then the only other effect is
  \<open>not-allowed\<close> on the error stream, so the engine is not started, no timer is armed
  and \<open>isManuallyStopped\<close> keeps its value. When permission is granted the call clears
  \<open>isManuallyStopped\<close>, sets the engine language, makes the guarded start (which calls
  \<open>start()\<close> unless the engine is already recognizing) and arms the inactivity timer
  of 120000 ms, and emits no error. Without an engine the call emits
  \<open>Speech recognition not available\<close> and changes nothing else.
\<close>

theorem startListening_outcome:
  "(\<exists>s'. startListening language mic reply s = Normal s')
   \<and> (recognition s \<and> mic \<noteq> Granted
        \<longrightarrow> startListening language mic reply s
              = Normal (s\<lparr>shouldBeListening := True,
                          errorSubject := errorSubject s @ [''not-allowed'']\<rparr>))
   \<and> (recognition s
        \<longrightarrow> (\<exists>s' h. startListening language Granted reply s = Normal s'
                 \<and> shouldBeListening s' \<and> \<not> isManuallyStopped s'
                 \<and> recognition_lang s' = language
                 \<and> errorSubject s' = errorSubject s
                 \<and> engine_calls s'
                     = engine_calls s @ (if \<not> isRecognizing s \<and> reply = Returns
                                          then [EngineStart] else [])
                 \<and> listeningTimeout s' = Some h
                 \<and> (h, InactivityTimer, 120000) \<in> set (pending (svc_timers s'))))
   \<and> (\<not> recognition s
        \<longrightarrow> startListening language mic reply s
              = Normal (s\<lparr>errorSubject := errorSubject s @ [''Speech recognition not available'']\<rparr>))"
proof (intro conjI impI)
  show "\<exists>s'. startListening language mic reply s = Normal s'"
    by (cases mic)
       (simp_all add: startListening_def startListening_begin_def startListening_resume_def
          requestMicrophonePermission_def)
next
  assume "recognition s \<and> mic \<noteq> Granted"
  then show "startListening language mic reply s
              = Normal (s\<lparr>shouldBeListening := True,
                          errorSubject := errorSubject s @ [''not-allowed'']\<rparr>)"
    by (cases mic)
       (simp_all add: startListening_def startListening_begin_def startListening_resume_def
          requestMicrophonePermission_def)
next
  assume r: "recognition s"
  let ?s0 = "s\<lparr>shouldBeListening := True, isManuallyStopped := False,
               recognition_lang := language\<rparr>"
  let ?s' = "startListeningTimeout (startRecognitionSafely reply ?s0)"
  have run: "startListening language Granted reply s = Normal ?s'"
    using r
    by (simp add: startListening_def startListening_begin_def startListening_resume_def
          requestMicrophonePermission_def)
  obtain h where h: "listeningTimeout ?s' = Some h"
      "(h, InactivityTimer, 120000) \<in> set (pending (svc_timers ?s'))"
    using startListeningTimeout_armed by blast
  have "shouldBeListening ?s'" "\<not> isManuallyStopped ?s'" "recognition_lang ?s' = language"
    "errorSubject ?s' = errorSubject s"
    by simp_all
  moreover have "engine_calls ?s' = engine_calls s @ (if \<not> isRecognizing s \<and> reply = Returns
                                          then [EngineStart] else [])"
    using r by (simp add: startRecognitionSafely_calls)
  ultimately show "\<exists>s' h. startListening language Granted reply s = Normal s'
                 \<and> shouldBeListening s' \<and> \<not> isManuallyStopped s'
                 \<and> recognition_lang s' = language
                 \<and> errorSubject s' = errorSubject s
                 \<and> engine_calls s'
                     = engine_calls s @ (if \<not> isRecognizing s \<and> reply = Returns
                                          then [EngineStart] else [])
                 \<and> listeningTimeout s' = Some h
                 \<and> (h, InactivityTimer, 120000) \<in> set (pending (svc_timers s'))"
    using run h by blast
next
  assume "\<not> recognition s"
  then show "startListening language mic reply s
              = Normal (s\<lparr>errorSubject := errorSubject s @ [''Speech recognition not available'']\<rparr>)"
    by (simp add: startListening_def startListening_begin_def)
qed

theorem startListening_outcome_witness:
  "recognition (service_init False True) \<and> Denied \<noteq> Granted
   \<and> startListening ''fr-FR'' Denied Returns (service_init False True)
       = Normal ((service_init False True)
                   \<lparr>shouldBeListening := True, errorSubject := [''not-allowed'']\<rparr>)
   \<and> (\<exists>s' h. startListening ''fr-FR'' Granted Returns (service_init False True) = Normal s'
          \<and> shouldBeListening s' \<and> \<not> isManuallyStopped s'
          \<and> recognition_lang s' = ''fr-FR''
          \<and> engine_calls s' = [EngineStart]
          \<and> (h, InactivityTimer, 120000) \<in> set (pending (svc_timers s')))"
proof -
  let ?s = "service_init False True"
  have f: "recognition ?s" "errorSubject ?s = []" "engine_calls ?s = []" "\<not> isRecognizing ?s"
    by (simp_all add: service_init_def)
  note a = startListening_outcome [of "''fr-FR''" Denied Returns ?s]
  note b = startListening_outcome [of "''fr-FR''" Granted Returns ?s]
  from a f(1) have 1: "startListening ''fr-FR'' Denied Returns ?s
       = Normal (?s\<lparr>shouldBeListening := True, errorSubject := errorSubject ?s @ [''not-allowed'']\<rparr>)"
    by simp
  from b f(1) obtain s' h where 2: "startListening ''fr-FR'' Granted Returns ?s = Normal s'"
      "shouldBeListening s'" "\<not> isManuallyStopped s'" "recognition_lang s' = ''fr-FR''"
      "engine_calls s' = engine_calls ?s @ (if \<not> isRecognizing ?s \<and> Returns = Returns
                                          then [EngineStart] else [])"
      "(h, InactivityTimer, 120000) \<in> set (pending (svc_timers s'))"
    by blast
  from 2(5) have 3: "engine_calls s' = [EngineStart]" by (simp add: f)
  from 1 have 4: "startListening ''fr-FR'' Denied Returns ?s
       = Normal (?s\<lparr>shouldBeListening := True, errorSubject := [''not-allowed'']\<rparr>)"
    by (simp add: f)
  from f(1) 4 2(1-4) 3 2(6) show ?thesis by blast
qed

text \<open>
  Claim C6 as stated fails: when permission is refused, \<open>shouldBeListening\<close> has been set
  to true all the same.
\<close>

theorem startListening_refused_sets_intent:
  "\<not> shouldBeListening (service_init False True)
   \<and> (\<exists>s'. startListening ''fr-FR'' Denied Returns (service_init False True) = Normal s'
         \<and> shouldBeListening s' \<and> errorSubject s' = [''not-allowed'']
         \<and> engine_calls s' = [] \<and> pending (svc_timers s') = [])"
  by (simp add: startListening_def startListening_begin_def startListening_resume_def
        requestMicrophonePermission_def service_init_def)

section \<open>Buffered text is covered by a pause timer\<close>






















end
